theory Spec2Isabelle
  imports Main "HOL-Library.Multiset"
begin

section \<open>Data model of tc.c\<close>

text \<open>
  \<^verbatim>\<open>typedef struct _directions { char dir_original; char dir_target; } directions;\<close>
\<close>

record directions =
  dir_original :: char
  dir_target :: char

text \<open>
  \<^verbatim>\<open>typedef struct { int cid; double arrival_time; directions dirs; int index; } car_t;\<close>
  The field \<^verbatim>\<open>arrival_time\<close> is a double that is only read to compute the length of the
  first \<^verbatim>\<open>usleep\<close> of a car thread; the model below lets a thread leave that sleep at any
  moment, so the field is not represented.
\<close>

record car_t =
  cid :: int
  dirs :: directions
  index :: int

text \<open>\<^verbatim>\<open>enum {DIR_N = 0, DIR_E = 1, DIR_S = 2, DIR_W = 3};\<close>\<close>

abbreviation (input) DIR_N :: int where "DIR_N \<equiv> 0"
abbreviation (input) DIR_E :: int where "DIR_E \<equiv> 1"
abbreviation (input) DIR_S :: int where "DIR_S \<equiv> 2"
abbreviation (input) DIR_W :: int where "DIR_W \<equiv> 3"

text \<open>The hard-coded manifest \<^verbatim>\<open>car_t cars[NUM_CARS]\<close>.\<close>

definition mk_car :: "int \<Rightarrow> char \<Rightarrow> char \<Rightarrow> int \<Rightarrow> car_t" where
  "mk_car i a b k = \<lparr>cid = i, dirs = \<lparr>dir_original = a, dir_target = b\<rparr>, index = k\<rparr>"

definition cars :: "car_t list" where
  "cars =
    [mk_car 1 (CHR ''^'') (CHR ''^'') 0,
     mk_car 2 (CHR ''^'') (CHR ''^'') 1,
     mk_car 3 (CHR ''^'') (CHR ''<'') 2,
     mk_car 4 (CHR ''v'') (CHR ''v'') 3,
     mk_car 5 (CHR ''v'') (CHR ''>'') 4,
     mk_car 6 (CHR ''^'') (CHR ''^'') 5,
     mk_car 7 (CHR ''>'') (CHR ''^'') 6,
     mk_car 8 (CHR ''<'') (CHR ''^'') 7]"

section \<open>Helper functions\<close>

text \<open>\<^verbatim>\<open>int dir_index(char d)\<close>: a switch with default \<^verbatim>\<open>-1\<close>.\<close>

definition dir_index :: "char \<Rightarrow> int" where
  "dir_index d =
    (if d = CHR ''^'' then DIR_N
     else if d = CHR ''>'' then DIR_E
     else if d = CHR ''v'' then DIR_S
     else if d = CHR ''<'' then DIR_W
     else - 1)"

text \<open>\<^verbatim>\<open>typedef enum {LEFT_T, STRAIGHT_T, RIGHT_T} turn_t;\<close>\<close>

datatype turn_t = LEFT_T | STRAIGHT_T | RIGHT_T

text \<open>\<^verbatim>\<open>turn_t get_turn(directions *d)\<close>: the chain of early returns, in source order.\<close>

definition get_turn :: "directions \<Rightarrow> turn_t" where
  "get_turn d =
    (let orig = dir_original d; t = dir_target d in
     if orig = t then STRAIGHT_T
     else if orig = CHR ''^'' \<and> t = CHR ''>'' then RIGHT_T
     else if orig = CHR ''^'' \<and> t = CHR ''<'' then LEFT_T
     else if orig = CHR ''v'' \<and> t = CHR ''<'' then RIGHT_T
     else if orig = CHR ''v'' \<and> t = CHR ''>'' then LEFT_T
     else if orig = CHR ''>'' \<and> t = CHR ''v'' then RIGHT_T
     else if orig = CHR ''>'' \<and> t = CHR ''^'' then LEFT_T
     else if orig = CHR ''<'' \<and> t = CHR ''^'' then RIGHT_T
     else if orig = CHR ''<'' \<and> t = CHR ''v'' then LEFT_T
     else STRAIGHT_T)"

text \<open>
  \<^verbatim>\<open>int get_quads(car_t *c, int q[])\<close> writes \<^verbatim>\<open>q[0] .. q[n-1]\<close> and returns \<^verbatim>\<open>n\<close>.
  The model returns the list of the entries written, in the order written; the
  returned count is the length of that list. Quadrant numbers: 0 = NW, 1 = NE,
  2 = SE, 3 = SW.
\<close>

definition get_quads :: "car_t \<Rightarrow> int list" where
  "get_quads c =
    (let orig = dir_original (dirs c); t = get_turn (dirs c) in
     if orig = CHR ''^'' then
       (if t = RIGHT_T then [1] else if t = STRAIGHT_T then [1, 2] else [1, 2, 3])
     else if orig = CHR ''>'' then
       (if t = RIGHT_T then [2] else if t = STRAIGHT_T then [2, 3] else [2, 3, 0])
     else if orig = CHR ''v'' then
       (if t = RIGHT_T then [3] else if t = STRAIGHT_T then [3, 0] else [3, 0, 1])
     else if orig = CHR ''<'' then
       (if t = RIGHT_T then [0] else if t = STRAIGHT_T then [0, 1] else [0, 1, 2])
     else [])"

section \<open>Quadrant locking order\<close>

text \<open>
  The two nested loops of \<^verbatim>\<open>lock_quads\<close> that sort \<^verbatim>\<open>q[0..n-1]\<close> in place.
  \<open>sort_inner q n i j\<close> is the inner loop entered with counter \<open>j\<close>;
  \<open>sort_outer q n i\<close> is the outer loop entered with counter \<open>i\<close>.
  The swap reads both cells before it writes.
\<close>

function sort_inner :: "int list \<Rightarrow> nat \<Rightarrow> nat \<Rightarrow> nat \<Rightarrow> int list" where
  "sort_inner q n i j =
    (if j < n
     then sort_inner (if q ! j < q ! i then q[i := q ! j, j := q ! i] else q) n i (j + 1)
     else q)"
  by pat_completeness auto
termination
  by (relation "measure (\<lambda>(q, n, i, j). n - j)") auto

declare sort_inner.simps [simp del]

function sort_outer :: "int list \<Rightarrow> nat \<Rightarrow> nat \<Rightarrow> int list" where
  "sort_outer q n i =
    (if i < n then sort_outer (sort_inner q n i (i + 1)) n (i + 1) else q)"
  by pat_completeness auto
termination
  by (relation "measure (\<lambda>(q, n, i). n - i)") auto

declare sort_outer.simps [simp del]

text \<open>
  \<^verbatim>\<open>void lock_quads(int q[], int n)\<close>: sorts, then locks \<^verbatim>\<open>quad[q[i]]\<close> for
  \<open>i = 0 .. n-1\<close>. The result is the array after the call together with the
  sequence of mutex indices passed to \<^verbatim>\<open>Pthread_mutex_lock\<close>, first to last.
\<close>

definition lock_quads :: "int list \<Rightarrow> nat \<Rightarrow> int list \<times> int list" where
  "lock_quads q n = (let q' = sort_outer q n 0 in (q', map (\<lambda>i. q' ! i) [0..<n]))"

text \<open>
  \<^verbatim>\<open>void unlock_quads(int q[], int n)\<close>: unlocks \<^verbatim>\<open>quad[q[i]]\<close> for
  \<open>i = n-1\<close> down to \<open>0\<close>. The result is the sequence of mutex indices passed to
  \<^verbatim>\<open>Pthread_mutex_unlock\<close>, first to last.
\<close>

definition unlock_quads :: "int list \<Rightarrow> nat \<Rightarrow> int list" where
  "unlock_quads q n = map (\<lambda>i. q ! i) (rev [0..<n])"

section \<open>The crossing phase as a sequence of actions\<close>

datatype event_t = arriving | crossing | exiting

text \<open>
  What one call of \<^verbatim>\<open>CrossIntersection\<close> does, in program order: mutex locks,
  the log line, the busy wait \<^verbatim>\<open>Spin(k)\<close> (declared in common.h; its argument is
  kept as it is passed), mutex unlocks.
\<close>

datatype action = Lock int | Log event_t | Spin nat | Unlock int

definition CrossIntersection :: "car_t \<Rightarrow> action list" where
  "CrossIntersection c =
    (let q0 = get_quads c;
         n = length q0;
         (q1, locked) = lock_quads q0 n;
         t = get_turn (dirs c)
     in map Lock locked
        @ [Log crossing]
        @ [if t = LEFT_T then Spin 5 else if t = STRAIGHT_T then Spin 4 else Spin 3]
        @ map Unlock (unlock_quads q1 n))"


text \<open>
  Names used when stating results. The source fixes them in its comments:
  \<^verbatim>\<open>'^'\<close> is North, \<^verbatim>\<open>'>'\<close> East, \<^verbatim>\<open>'v'\<close> South, \<^verbatim>\<open>'<'\<close> West (see \<^verbatim>\<open>dir_index\<close>),
  and \<^verbatim>\<open>quad 0 = NW, 1 = NE, 2 = SE, 3 = SW\<close>.
\<close>

abbreviation (input) North :: char where "North \<equiv> CHR ''^''"
abbreviation (input) East :: char where "East \<equiv> CHR ''>''"
abbreviation (input) South :: char where "South \<equiv> CHR ''v''"
abbreviation (input) West :: char where "West \<equiv> CHR ''<''"

abbreviation (input) NW :: int where "NW \<equiv> 0"
abbreviation (input) NE :: int where "NE \<equiv> 1"
abbreviation (input) SE :: int where "SE \<equiv> 2"
abbreviation (input) SW :: int where "SW \<equiv> 3"

text \<open>
  The turn kind and the quadrant path that the program computes for a car \<open>c\<close> whose
  direction pair is \<open>(a, b)\<close>; the other fields of the car are left as they are.
\<close>

definition route :: "car_t \<Rightarrow> char \<Rightarrow> char \<Rightarrow> turn_t \<times> int list" where
  "route c a b =
    (let c' = c\<lparr>dirs := \<lparr>dir_original = a, dir_target = b\<rparr>\<rparr>
     in (get_turn (dirs c'), get_quads c'))"

text \<open>
  The crossing time in seconds by turn kind, as the comment in \<^verbatim>\<open>CrossIntersection\<close>
  gives it: \<^verbatim>\<open>left: 5 seconds, straight: 4 seconds, right: 3 seconds\<close>.
\<close>

definition crossing_seconds :: "turn_t \<Rightarrow> nat" where
  "crossing_seconds t = (case t of LEFT_T \<Rightarrow> 5 | STRAIGHT_T \<Rightarrow> 4 | RIGHT_T \<Rightarrow> 3)"

section \<open>Shared state and the car thread\<close>

text \<open>
  The global variables of tc.c. A mutex is the thread that holds it, if any; the
  condition variable \<^verbatim>\<open>turn_cv\<close> is the set of threads blocked in
  \<^verbatim>\<open>pthread_cond_wait\<close> that have not been woken; a semaphore is its value.
  Threads are numbered by their position in the manifest. \<^verbatim>\<open>start_time\<close> and the
  text written by \<^verbatim>\<open>printf\<close> are not represented.
\<close>

record shared_t =
  quad :: "nat option list"
  print_lock :: "nat option"
  turn_lock :: "nat option"
  turn_cv :: "nat set"
  current_direction :: int
  flow_count :: "int list"
  hol_sem :: "nat list"

text \<open>
  The program counter of a car thread: one value for each blocking or state-changing
  operation of \<^verbatim>\<open>Car\<close>, in program order.
  \<^item> \<open>AtStart\<close>: \<^verbatim>\<open>usleep(us)\<close> in \<^verbatim>\<open>Car\<close>;
  \<^item> \<open>LogLock e\<close>, \<open>LogPrint e\<close>: inside \<^verbatim>\<open>log_event\<close>, before
    \<^verbatim>\<open>Pthread_mutex_lock(&print_lock)\<close> and before the \<^verbatim>\<open>printf\<close> and unlock;
  \<^item> \<open>StopSign\<close>: \<^verbatim>\<open>usleep(2000000)\<close>; \<open>SemWait\<close>: \<^verbatim>\<open>sem_wait(&hol_sem[d])\<close>;
  \<^item> \<open>TurnLockA\<close>, \<open>WhileCheck\<close>, \<open>CondWait\<close>, \<open>TakeFlow\<close>, \<open>TurnUnlockA\<close>: the
    critical section of \<^verbatim>\<open>ArriveIntersection\<close>;
  \<^item> \<open>GetQuads\<close>: \<^verbatim>\<open>get_quads\<close> and the sort at the head of \<^verbatim>\<open>lock_quads\<close>;
  \<^item> \<open>LockQuad i\<close>: the locking loop of \<^verbatim>\<open>lock_quads\<close> with counter \<open>i\<close>;
  \<^item> \<open>SpinCross\<close>: \<^verbatim>\<open>Spin\<close>;
  \<^item> \<open>UnlockQuad j\<close>: the loop of \<^verbatim>\<open>unlock_quads\<close> with counter \<open>i = j - 1\<close>
    (\<open>j = 0\<close> is the loop exit \<open>i = -1\<close>);
  \<^item> \<open>TurnLockE\<close>, \<open>LeaveFlow\<close>, \<open>TurnUnlockE\<close>, \<open>SemPost\<close>: \<^verbatim>\<open>ExitIntersection\<close>;
  \<^item> \<open>Exited\<close>: the thread has returned;
  \<^item> \<open>Fault\<close>: the thread has indexed a four-element array out of bounds
    (undefined behaviour in C).
\<close>

datatype pc_t =
    AtStart
  | LogLock event_t
  | LogPrint event_t
  | StopSign
  | SemWait
  | TurnLockA
  | WhileCheck
  | CondWait
  | TakeFlow
  | TurnUnlockA
  | GetQuads
  | LockQuad nat
  | SpinCross
  | UnlockQuad nat
  | TurnLockE
  | LeaveFlow
  | TurnUnlockE
  | SemPost
  | Exited
  | Fault

text \<open>The locals of a car thread: where it is, and the filled part of \<^verbatim>\<open>int q[4]\<close>.\<close>

record local_t =
  pc :: pc_t
  qs :: "int list"

type_synonym state = "shared_t \<times> local_t list"

text \<open>\<^verbatim>\<open>int d = dir_index(c->dirs.dir_original);\<close>\<close>

definition car_dir :: "car_t \<Rightarrow> int" where
  "car_dir c = dir_index (dir_original (dirs c))"

text \<open>An index into one of the arrays \<^verbatim>\<open>quad\<close>, \<^verbatim>\<open>flow_count\<close>, \<^verbatim>\<open>hol_sem\<close>.\<close>

definition in_range :: "int \<Rightarrow> bool" where
  "in_range k \<longleftrightarrow> 0 \<le> k \<and> k < 4"

text \<open>Where \<^verbatim>\<open>log_event\<close> returns to.\<close>

fun after_log :: "event_t \<Rightarrow> pc_t" where
  "after_log arriving = StopSign"
| "after_log crossing = SpinCross"
| "after_log exiting = TurnLockE"

text \<open>
  \<^verbatim>\<open>flow_count\<close> is an array of 32-bit \<^verbatim>\<open>int\<close>. Its cells are kept as integers, and
  the two places that do arithmetic on them, \<^verbatim>\<open>flow_count[d]++\<close> and
  \<^verbatim>\<open>flow_count[d]--\<close>, wrap around in two's complement as the compiled program does
  (the C standard leaves signed overflow undefined).
\<close>

abbreviation (input) INT_MAX :: int where "INT_MAX \<equiv> 2147483647"
abbreviation (input) INT_MIN :: int where "INT_MIN \<equiv> - 2147483648"

definition wrap_int :: "int \<Rightarrow> int" where
  "wrap_int x = (x + 2147483648) mod 4294967296 - 2147483648"

text \<open>
  The body of the critical section of \<^verbatim>\<open>ArriveIntersection\<close> after the wait loop:
  \<^verbatim>\<open>if (current_direction == -1) { current_direction = d; flow_count[d] = 1; }
  else { flow_count[d]++; }\<close>
\<close>

definition take_flow :: "shared_t \<Rightarrow> int \<Rightarrow> shared_t" where
  "take_flow s d =
    (if current_direction s = - 1
     then s\<lparr>current_direction := d, flow_count := (flow_count s)[nat d := 1]\<rparr>
     else s\<lparr>flow_count := (flow_count s)[nat d := wrap_int (flow_count s ! nat d + 1)]\<rparr>)"

text \<open>
  The body of the critical section of \<^verbatim>\<open>ExitIntersection\<close>:
  \<^verbatim>\<open>flow_count[d]--; if (flow_count[d] == 0) { current_direction = -1;
  pthread_cond_broadcast(&turn_cv); }\<close>. The broadcast wakes every waiter.
\<close>

definition leave_flow :: "shared_t \<Rightarrow> int \<Rightarrow> shared_t" where
  "leave_flow s d =
    (let s1 = s\<lparr>flow_count := (flow_count s)[nat d := wrap_int (flow_count s ! nat d - 1)]\<rparr>
     in if flow_count s1 ! nat d = 0
        then s1\<lparr>current_direction := - 1, turn_cv := {}\<rparr>
        else s1)"

text \<open>
  One step of car \<open>c\<close> running as thread \<open>t\<close>, from shared state \<open>s\<close> with local
  array \<open>q\<close> at the given program counter. \<open>None\<close>: the thread cannot move (it is
  blocked on a mutex, a semaphore or the condition variable, or it has ended).
  \<^item> A mutex can be locked only when nobody holds it; unlocking clears the holder.
  \<^item> \<^verbatim>\<open>sem_wait\<close> needs a positive value and decrements it; \<^verbatim>\<open>sem_post\<close> increments it.
  \<^item> \<^verbatim>\<open>pthread_cond_wait\<close> releases \<^verbatim>\<open>turn_lock\<close> and enters the wait set in one
    step. The thread stays in \<open>CondWait\<close> while it is in the wait set. It is taken out
    of the wait set by a broadcast or by a wake-up without broadcast, which POSIX
    allows at any time (relation \<open>wake\<close> below); it then locks \<^verbatim>\<open>turn_lock\<close> again as
    soon as the lock is free and evaluates the loop condition again.
  \<^item> Each of the two critical-section bodies is one step; \<^verbatim>\<open>turn_lock\<close> is held
    around it.
\<close>

fun pc_step :: "car_t \<Rightarrow> nat \<Rightarrow> shared_t \<Rightarrow> int list \<Rightarrow> pc_t \<Rightarrow> (shared_t \<times> local_t) option" where
  "pc_step c t s q AtStart = Some (s, \<lparr>pc = LogLock arriving, qs = q\<rparr>)"
| "pc_step c t s q (LogLock e) =
    (if print_lock s = None
     then Some (s\<lparr>print_lock := Some t\<rparr>, \<lparr>pc = LogPrint e, qs = q\<rparr>)
     else None)"
| "pc_step c t s q (LogPrint e) =
    Some (s\<lparr>print_lock := None\<rparr>, \<lparr>pc = after_log e, qs = q\<rparr>)"
| "pc_step c t s q StopSign = Some (s, \<lparr>pc = SemWait, qs = q\<rparr>)"
| "pc_step c t s q SemWait =
    (let d = car_dir c in
     if \<not> in_range d then Some (s, \<lparr>pc = Fault, qs = q\<rparr>)
     else if 0 < hol_sem s ! nat d
     then Some (s\<lparr>hol_sem := (hol_sem s)[nat d := hol_sem s ! nat d - 1]\<rparr>,
                \<lparr>pc = TurnLockA, qs = q\<rparr>)
     else None)"
| "pc_step c t s q TurnLockA =
    (if turn_lock s = None
     then Some (s\<lparr>turn_lock := Some t\<rparr>, \<lparr>pc = WhileCheck, qs = q\<rparr>)
     else None)"
| "pc_step c t s q WhileCheck =
    (if current_direction s \<noteq> - 1 \<and> current_direction s \<noteq> car_dir c
     then Some (s\<lparr>turn_lock := None, turn_cv := insert t (turn_cv s)\<rparr>,
                \<lparr>pc = CondWait, qs = q\<rparr>)
     else Some (s, \<lparr>pc = TakeFlow, qs = q\<rparr>))"
| "pc_step c t s q CondWait =
    (if t \<notin> turn_cv s \<and> turn_lock s = None
     then Some (s\<lparr>turn_lock := Some t\<rparr>, \<lparr>pc = WhileCheck, qs = q\<rparr>)
     else None)"
| "pc_step c t s q TakeFlow =
    (let d = car_dir c in
     if \<not> in_range d then Some (s, \<lparr>pc = Fault, qs = q\<rparr>)
     else Some (take_flow s d, \<lparr>pc = TurnUnlockA, qs = q\<rparr>))"
| "pc_step c t s q TurnUnlockA = Some (s\<lparr>turn_lock := None\<rparr>, \<lparr>pc = GetQuads, qs = q\<rparr>)"
| "pc_step c t s q GetQuads =
    (let q0 = get_quads c in
     Some (s, \<lparr>pc = LockQuad 0, qs = fst (lock_quads q0 (length q0))\<rparr>))"
| "pc_step c t s q (LockQuad i) =
    (if i < length q
     then (let k = q ! i in
           if \<not> in_range k then Some (s, \<lparr>pc = Fault, qs = q\<rparr>)
           else if quad s ! nat k = None
           then Some (s\<lparr>quad := (quad s)[nat k := Some t]\<rparr>, \<lparr>pc = LockQuad (i + 1), qs = q\<rparr>)
           else None)
     else Some (s, \<lparr>pc = LogLock crossing, qs = q\<rparr>))"
| "pc_step c t s q SpinCross = Some (s, \<lparr>pc = UnlockQuad (length q), qs = q\<rparr>)"
| "pc_step c t s q (UnlockQuad 0) = Some (s, \<lparr>pc = LogLock exiting, qs = q\<rparr>)"
| "pc_step c t s q (UnlockQuad (Suc i)) =
    (if i < length q \<and> in_range (q ! i)
     then Some (s\<lparr>quad := (quad s)[nat (q ! i) := None]\<rparr>, \<lparr>pc = UnlockQuad i, qs = q\<rparr>)
     else Some (s, \<lparr>pc = Fault, qs = q\<rparr>))"
| "pc_step c t s q TurnLockE =
    (if turn_lock s = None
     then Some (s\<lparr>turn_lock := Some t\<rparr>, \<lparr>pc = LeaveFlow, qs = q\<rparr>)
     else None)"
| "pc_step c t s q LeaveFlow =
    (let d = car_dir c in
     if \<not> in_range d then Some (s, \<lparr>pc = Fault, qs = q\<rparr>)
     else Some (leave_flow s d, \<lparr>pc = TurnUnlockE, qs = q\<rparr>))"
| "pc_step c t s q TurnUnlockE = Some (s\<lparr>turn_lock := None\<rparr>, \<lparr>pc = SemPost, qs = q\<rparr>)"
| "pc_step c t s q SemPost =
    (let d = car_dir c in
     if \<not> in_range d then Some (s, \<lparr>pc = Fault, qs = q\<rparr>)
     else Some (s\<lparr>hol_sem := (hol_sem s)[nat d := hol_sem s ! nat d + 1]\<rparr>,
                \<lparr>pc = Exited, qs = q\<rparr>))"
| "pc_step c t s q Exited = None"
| "pc_step c t s q Fault = None"

definition car_step :: "car_t \<Rightarrow> nat \<Rightarrow> shared_t \<Rightarrow> local_t \<Rightarrow> (shared_t \<times> local_t) option" where
  "car_step c t s l = pc_step c t s (qs l) (pc l)"

section \<open>The interleaved system\<close>

text \<open>
  The state that \<^verbatim>\<open>main\<close> sets up: every mutex free, every semaphore 1, nobody owns
  the intersection, and one thread per manifest entry about to run \<^verbatim>\<open>Car\<close>.
\<close>

definition init_shared :: shared_t where
  "init_shared =
    \<lparr>quad = [None, None, None, None], print_lock = None, turn_lock = None, turn_cv = {},
     current_direction = - 1, flow_count = [0, 0, 0, 0], hol_sem = [1, 1, 1, 1]\<rparr>"

definition init :: "car_t list \<Rightarrow> state" where
  "init cs = (init_shared, replicate (length cs) \<lparr>pc = AtStart, qs = []\<rparr>)"

text \<open>The scheduler picks thread \<open>t\<close>; the result is \<open>None\<close> when \<open>t\<close> cannot move.\<close>

definition sched_step :: "car_t list \<Rightarrow> nat \<Rightarrow> state \<Rightarrow> state option" where
  "sched_step cs t s =
    (if t < length cs \<and> t < length (snd s)
     then (case car_step (cs ! t) t (fst s) (snd s ! t) of
             None \<Rightarrow> None
           | Some (sh, l) \<Rightarrow> Some (sh, (snd s)[t := l]))
     else None)"

definition step :: "car_t list \<Rightarrow> state \<Rightarrow> state \<Rightarrow> bool" where
  "step cs s s' \<longleftrightarrow> (\<exists>t < length cs. sched_step cs t s = Some s')"

text \<open>
  A wake-up without broadcast: a thread blocked in \<^verbatim>\<open>pthread_cond_wait\<close> is taken out
  of the wait set of \<^verbatim>\<open>turn_cv\<close> although nobody has signalled. This is an event of the
  environment, not a step of the program.
\<close>

definition wake_step :: "nat \<Rightarrow> state \<Rightarrow> state option" where
  "wake_step t s =
    (if t < length (snd s) \<and> pc (snd s ! t) = CondWait \<and> t \<in> turn_cv (fst s)
     then Some ((fst s)\<lparr>turn_cv := turn_cv (fst s) - {t}\<rparr>, snd s)
     else None)"

definition wake :: "state \<Rightarrow> state \<Rightarrow> bool" where
  "wake s s' \<longleftrightarrow> (\<exists>t < length (snd s). wake_step t s = Some s')"

text \<open>Running a schedule: the list of thread numbers picked, first to last.\<close>

fun run :: "car_t list \<Rightarrow> nat list \<Rightarrow> state \<Rightarrow> state option" where
  "run cs [] s = Some s"
| "run cs (t # ts) s = (case sched_step cs t s of None \<Rightarrow> None | Some s' \<Rightarrow> run cs ts s')"

text \<open>
  The states the system can be in: those reached from the initial state by steps of
  the threads and wake-ups without broadcast, in any order.
\<close>

inductive reachable :: "car_t list \<Rightarrow> state \<Rightarrow> bool" for cs :: "car_t list" where
  reach_init: "reachable cs (init cs)"
| reach_step: "reachable cs s \<Longrightarrow> step cs s s' \<Longrightarrow> reachable cs s'"
| reach_wake: "reachable cs s \<Longrightarrow> wake s s' \<Longrightarrow> reachable cs s'"

text \<open>Every car of the manifest has one of the four direction characters as origin.\<close>

definition valid_cars :: "car_t list \<Rightarrow> bool" where
  "valid_cars cs = list_all (\<lambda>c. in_range (car_dir c)) cs"


section \<open>Predicates used to state the results\<close>

text \<open>
  The quadrant mutexes a thread has locked and not yet unlocked, read off its program
  counter and its array: inside the locking loop with counter \<open>i\<close> these are
  \<open>q[0..i-1]\<close>; from the end of that loop to the start of the unlocking loop, all of
  \<open>q\<close>; inside the unlocking loop with \<open>j\<close> cells still to go, \<open>q[0..j-1]\<close>.
\<close>

fun held_at :: "pc_t \<Rightarrow> int list \<Rightarrow> int list" where
  "held_at (LockQuad i) q = take i q"
| "held_at (LogLock e) q = (if e = crossing then q else [])"
| "held_at (LogPrint e) q = (if e = crossing then q else [])"
| "held_at SpinCross q = q"
| "held_at (UnlockQuad j) q = take j q"
| "held_at _ q = []"

definition held :: "local_t \<Rightarrow> int set" where
  "held l = set (held_at (pc l) (qs l))"

text \<open>Program counters at which the thread holds \<^verbatim>\<open>print_lock\<close>.\<close>

fun has_print :: "pc_t \<Rightarrow> bool" where
  "has_print (LogPrint e) = True"
| "has_print _ = False"

text \<open>Program counters at which the thread holds \<^verbatim>\<open>turn_lock\<close>.\<close>

fun has_turn :: "pc_t \<Rightarrow> bool" where
  "has_turn WhileCheck = True"
| "has_turn TakeFlow = True"
| "has_turn TurnUnlockA = True"
| "has_turn LeaveFlow = True"
| "has_turn TurnUnlockE = True"
| "has_turn _ = False"

text \<open>
  Program counters between the increment and the decrement of \<^verbatim>\<open>flow_count[d]\<close>:
  the thread is counted in the flow of its direction.
\<close>

fun in_flow :: "pc_t \<Rightarrow> bool" where
  "in_flow TurnUnlockA = True"
| "in_flow GetQuads = True"
| "in_flow (LockQuad i) = True"
| "in_flow (LogLock e) = (e \<noteq> arriving)"
| "in_flow (LogPrint e) = (e \<noteq> arriving)"
| "in_flow SpinCross = True"
| "in_flow (UnlockQuad j) = True"
| "in_flow TurnLockE = True"
| "in_flow LeaveFlow = True"
| "in_flow _ = False"

text \<open>
  Program counters between \<^verbatim>\<open>sem_wait(&hol_sem[d])\<close> and \<^verbatim>\<open>sem_post(&hol_sem[d])\<close>: the
  thread has the head-of-line token of its direction.
\<close>

fun has_hol :: "pc_t \<Rightarrow> bool" where
  "has_hol TurnLockA = True"
| "has_hol WhileCheck = True"
| "has_hol CondWait = True"
| "has_hol TakeFlow = True"
| "has_hol TurnUnlockE = True"
| "has_hol SemPost = True"
| "has_hol p = in_flow p"

text \<open>
  The loop counters stay within the filled part of the array, and the array holds
  distinct quadrant numbers in ascending order.
\<close>

fun idx_ok :: "pc_t \<Rightarrow> nat \<Rightarrow> bool" where
  "idx_ok (LockQuad i) n = (i \<le> n)"
| "idx_ok (UnlockQuad j) n = (j \<le> n)"
| "idx_ok _ n = True"

definition local_ok :: "local_t \<Rightarrow> bool" where
  "local_ok l \<longleftrightarrow>
     distinct (qs l) \<and> sorted (qs l) \<and> list_all in_range (qs l)
     \<and> idx_ok (pc l) (length (qs l))"

definition inv_shape :: "car_t list \<Rightarrow> state \<Rightarrow> bool" where
  "inv_shape cs s \<longleftrightarrow>
     length (snd s) = length cs \<and> (\<forall>t < length (snd s). local_ok (snd s ! t))
     \<and> length (quad (fst s)) = 4 \<and> length (flow_count (fst s)) = 4
     \<and> length (hol_sem (fst s)) = 4"

text \<open>
  A mutex \<open>m\<close> is held by thread \<open>t\<close> exactly when \<open>t\<close> is at a program counter in \<open>P\<close>.
\<close>

definition owner_ok :: "(pc_t \<Rightarrow> bool) \<Rightarrow> nat option \<Rightarrow> local_t list \<Rightarrow> bool" where
  "owner_ok P m ls \<longleftrightarrow>
     (\<forall>t < length ls. P (pc (ls ! t)) = (m = Some t))
     \<and> (\<forall>t. m = Some t \<longrightarrow> t < length ls)"

definition inv_print :: "state \<Rightarrow> bool" where
  "inv_print s = owner_ok has_print (print_lock (fst s)) (snd s)"

definition inv_turn :: "state \<Rightarrow> bool" where
  "inv_turn s = owner_ok has_turn (turn_lock (fst s)) (snd s)"

text \<open>Quadrant mutex \<open>k\<close> is held by thread \<open>t\<close> exactly when \<open>k\<close> is among \<open>held\<close> of \<open>t\<close>.\<close>

definition inv_quad :: "state \<Rightarrow> bool" where
  "inv_quad s \<longleftrightarrow>
     (\<forall>k < 4. \<forall>t < length (snd s). (int k \<in> held (snd s ! t)) = (quad (fst s) ! k = Some t))
     \<and> (\<forall>k < 4. \<forall>t. quad (fst s) ! k = Some t \<longrightarrow> t < length (snd s))"

text \<open>
  The head-of-line semaphore of a direction is 0 exactly when one thread of that
  direction is between its \<^verbatim>\<open>sem_wait\<close> and its \<^verbatim>\<open>sem_post\<close>, and it is never above 1.
\<close>

definition inv_hol :: "car_t list \<Rightarrow> state \<Rightarrow> bool" where
  "inv_hol cs s \<longleftrightarrow>
     (\<forall>t < length (snd s). has_hol (pc (snd s ! t)) \<longrightarrow>
        hol_sem (fst s) ! nat (car_dir (cs ! t)) = 0)
     \<and> (\<forall>t < length (snd s). \<forall>u < length (snd s).
          has_hol (pc (snd s ! t)) \<and> has_hol (pc (snd s ! u))
          \<and> car_dir (cs ! t) = car_dir (cs ! u) \<longrightarrow> t = u)
     \<and> (\<forall>d < 4. hol_sem (fst s) ! d = 0 \<longrightarrow>
          (\<exists>t < length (snd s). has_hol (pc (snd s ! t)) \<and> car_dir (cs ! t) = int d))
     \<and> (\<forall>d < 4. hol_sem (fst s) ! d \<le> 1)"

text \<open>
  How \<^verbatim>\<open>current_direction\<close> and \<^verbatim>\<open>flow_count\<close> relate to the program counters: a
  thread counted in the flow has the owning direction; the count of a direction is 1
  when a thread of that direction is in the flow and 0 otherwise; a direction owns the
  intersection only while a thread of it is in the flow; a thread that has left the
  wait loop and not yet run the body finds the intersection free.
\<close>

definition inv_flow :: "car_t list \<Rightarrow> state \<Rightarrow> bool" where
  "inv_flow cs s \<longleftrightarrow>
     (\<forall>t < length (snd s). in_flow (pc (snd s ! t)) \<longrightarrow>
        current_direction (fst s) = car_dir (cs ! t))
     \<and> (\<forall>d < 4. flow_count (fst s) ! d =
          (if \<exists>t < length (snd s). in_flow (pc (snd s ! t)) \<and> car_dir (cs ! t) = int d
           then 1 else 0))
     \<and> (current_direction (fst s) = - 1
        \<or> (\<exists>t < length (snd s). in_flow (pc (snd s ! t))
              \<and> car_dir (cs ! t) = current_direction (fst s)))
     \<and> (\<forall>t < length (snd s). pc (snd s ! t) = TakeFlow \<longrightarrow> current_direction (fst s) = - 1)"

text \<open>A thread still in the wait set of \<^verbatim>\<open>turn_cv\<close> sees the intersection owned.\<close>

definition inv_wait :: "state \<Rightarrow> bool" where
  "inv_wait s \<longleftrightarrow>
     (\<forall>t < length (snd s). pc (snd s ! t) = CondWait \<and> t \<in> turn_cv (fst s) \<longrightarrow>
        current_direction (fst s) \<noteq> - 1)"

definition no_fault :: "state \<Rightarrow> bool" where
  "no_fault s \<longleftrightarrow> (\<forall>t < length (snd s). pc (snd s ! t) \<noteq> Fault)"

definition inv_all :: "car_t list \<Rightarrow> state \<Rightarrow> bool" where
  "inv_all cs s \<longleftrightarrow>
     inv_shape cs s \<and> inv_print s \<and> inv_turn s \<and> inv_quad s \<and> inv_hol cs s
     \<and> inv_flow cs s \<and> inv_wait s \<and> no_fault s"

text \<open>
  The invariant of the flow state as the specification words it: the owner is nobody
  (\<open>-1\<close>) or one of the four directions; no count is negative (and each is a value of
  a 32-bit \<^verbatim>\<open>int\<close>); a positive count belongs to the owner, so every other count is 0;
  and nobody owns the intersection exactly when all four counts are 0.
\<close>

definition flow_inv :: "shared_t \<Rightarrow> bool" where
  "flow_inv s \<longleftrightarrow>
     (current_direction s = - 1 \<or> in_range (current_direction s))
     \<and> list_all (\<lambda>d. 0 \<le> flow_count s ! d \<and> flow_count s ! d \<le> INT_MAX) [0..<4]
     \<and> list_all (\<lambda>d. 0 < flow_count s ! d \<longrightarrow> current_direction s = int d) [0..<4]
     \<and> (current_direction s = - 1 \<longleftrightarrow> list_all (\<lambda>d. flow_count s ! d = 0) [0..<4])"





text \<open>A state of the manifest in which car 1 holds quadrants NE and SE.\<close>

definition crossing_state :: state where
  "crossing_state =
    (\<lparr>quad = [None, Some 0, Some 0, None], print_lock = None, turn_lock = None, turn_cv = {},
      current_direction = 0, flow_count = [1, 0, 0, 0], hol_sem = [0, 1, 1, 1]\<rparr>,
     [\<lparr>pc = LockQuad 2, qs = [1, 2]\<rparr>, \<lparr>pc = AtStart, qs = []\<rparr>, \<lparr>pc = AtStart, qs = []\<rparr>,
      \<lparr>pc = AtStart, qs = []\<rparr>, \<lparr>pc = AtStart, qs = []\<rparr>, \<lparr>pc = AtStart, qs = []\<rparr>,
      \<lparr>pc = AtStart, qs = []\<rparr>, \<lparr>pc = AtStart, qs = []\<rparr>])"


text \<open>The initial shared state with the intersection owned by North, one car counted.\<close>

definition owned_by_north :: shared_t where
  "owned_by_north = init_shared\<lparr>current_direction := 0, flow_count := [1, 0, 0, 0]\<rparr>"








text \<open>
  The wait-for relation among the quadrant locks: thread \<open>t\<close> is inside the locking
  loop of \<^verbatim>\<open>lock_quads\<close>, about to lock quadrant \<open>q[i]\<close>, and that mutex is held by
  thread \<open>u\<close>.
\<close>

definition waits_for :: "state \<Rightarrow> nat \<Rightarrow> nat \<Rightarrow> bool" where
  "waits_for s t u \<longleftrightarrow>
     t < length (snd s)
     \<and> (\<exists>i. pc (snd s ! t) = LockQuad i \<and> i < length (qs (snd s ! t))
            \<and> quad (fst s) ! nat (qs (snd s ! t) ! i) = Some u)"










section \<open>The in-place sort of \<open>lock_quads\<close>\<close>

lemma length_sort_inner: "length (sort_inner q n i j) = length q"
  by (induction q n i j rule: sort_inner.induct) (subst sort_inner.simps, simp)

lemma length_sort_outer: "length (sort_outer q n i) = length q"
  by (induction q n i rule: sort_outer.induct) (subst sort_outer.simps, simp add: length_sort_inner)

lemma mset_sort_inner: "i < n \<Longrightarrow> n \<le> length q \<Longrightarrow> mset (sort_inner q n i j) = mset q"
proof (induction q n i j rule: sort_inner.induct)
  case (1 q n i j)
  show ?case
  proof (cases "j < n")
    case True
    let ?q' = "if q ! j < q ! i then q[i := q ! j, j := q ! i] else q"
    have len: "n \<le> length ?q'" using 1 by simp
    have "mset ?q' = mset q" using True 1 by (simp add: mset_swap)
    moreover have "mset (sort_inner ?q' n i (j + 1)) = mset ?q'"
      using 1 True len by blast
    ultimately show ?thesis using True by (subst sort_inner.simps) simp
  next
    case False
    then show ?thesis by (subst sort_inner.simps) simp
  qed
qed

lemma mset_sort_outer: "n \<le> length q \<Longrightarrow> mset (sort_outer q n i) = mset q"
proof (induction q n i rule: sort_outer.induct)
  case (1 q n i)
  show ?case
  proof (cases "i < n")
    case True
    then show ?thesis using 1
      by (subst sort_outer.simps) (simp add: length_sort_inner mset_sort_inner)
  next
    case False
    then show ?thesis by (subst sort_outer.simps) simp
  qed
qed

text \<open>cells outside i and [j, n) are untouched by the inner loop\<close>
lemma sort_inner_other: "k \<noteq> i \<Longrightarrow> k < j \<or> n \<le> k \<Longrightarrow> sort_inner q n i j ! k = q ! k"
proof (induction q n i j rule: sort_inner.induct)
  case (1 q n i j)
  show ?case
  proof (cases "j < n")
    case True
    let ?q' = "if q ! j < q ! i then q[i := q ! j, j := q ! i] else q"
    have "sort_inner ?q' n i (j + 1) ! k = ?q' ! k"
      using 1 True by auto
    moreover have "?q' ! k = q ! k" using 1 True by auto
    ultimately show ?thesis using True by (subst sort_inner.simps) simp
  next
    case False
    then show ?thesis by (subst sort_inner.simps) simp
  qed
qed


lemma sort_inner_window:
  "i < j \<Longrightarrow> n \<le> length q \<Longrightarrow> i \<le> b \<Longrightarrow> b < n \<Longrightarrow>
   \<exists>k. i \<le> k \<and> k < n \<and> sort_inner q n i j ! b = q ! k"
proof (induction q n i j arbitrary: b rule: sort_inner.induct)
  case (1 q n i j)
  show ?case
  proof (cases "j < n")
    case True
    let ?q' = "if q ! j < q ! i then q[i := q ! j, j := q ! i] else q"
    have "\<exists>k. i \<le> k \<and> k < n \<and> sort_inner ?q' n i (j + 1) ! b = ?q' ! k"
      using 1 True by auto
    then obtain k where k: "i \<le> k" "k < n" "sort_inner ?q' n i (j + 1) ! b = ?q' ! k"
      by blast
    have "\<exists>m. i \<le> m \<and> m < n \<and> ?q' ! k = q ! m"
    proof (cases "q ! j < q ! i")
      case False
      then show ?thesis using k by auto
    next
      case sw: True
      consider "k = i" | "k = j" | "k \<noteq> i" "k \<noteq> j" by blast
      then show ?thesis
      proof cases
        case 1
        then show ?thesis using sw True "1.prems" by (intro exI[of _ j]) auto
      next
        case 2
        then show ?thesis using sw True "1.prems" by (intro exI[of _ i]) auto
      next
        case 3
        then show ?thesis using sw k by (intro exI[of _ k]) auto
      qed
    qed
    then show ?thesis using True k by (subst sort_inner.simps) simp
  next
    case False
    then show ?thesis using 1 by (subst sort_inner.simps) auto
  qed
qed

lemma sort_inner_min:
  "i < j \<Longrightarrow> n \<le> length q \<Longrightarrow> \<forall>k. i < k \<and> k < j \<longrightarrow> q ! i \<le> q ! k \<Longrightarrow>
   i < b \<Longrightarrow> b < n \<Longrightarrow> sort_inner q n i j ! i \<le> sort_inner q n i j ! b"
proof (induction q n i j rule: sort_inner.induct)
  case (1 q n i j)
  show ?case
  proof (cases "j < n")
    case True
    let ?q' = "if q ! j < q ! i then q[i := q ! j, j := q ! i] else q"
    have inv: "\<forall>k. i < k \<and> k < j + 1 \<longrightarrow> ?q' ! i \<le> ?q' ! k"
    proof (intro allI impI)
      fix k assume k: "i < k \<and> k < j + 1"
      show "?q' ! i \<le> ?q' ! k"
      proof (cases "k = j")
        case True
        then show ?thesis using 1(2,3) \<open>j < n\<close> by auto
      next
        case False
        then have "k < j" using k by simp
        then have "q ! i \<le> q ! k" using 1(4) k by blast
        then show ?thesis using \<open>k < j\<close> k 1(2,3) \<open>j < n\<close> by auto
      qed
    qed
    have "sort_inner ?q' n i (j + 1) ! i \<le> sort_inner ?q' n i (j + 1) ! b"
      using "1.IH"[OF True _ _ inv] 1(2,3,5,6) by simp
    then show ?thesis using True by (subst (1 2) sort_inner.simps) simp
  next
    case False
    then have "b < j" using 1 by simp
    then show ?thesis using False 1 by (subst (1 2) sort_inner.simps) simp
  qed
qed

lemma sort_outer_other: "n \<le> k \<Longrightarrow> sort_outer q n i ! k = q ! k"
proof (induction q n i rule: sort_outer.induct)
  case (1 q n i)
  show ?case
  proof (cases "i < n")
    case True
    then show ?thesis using 1 by (subst sort_outer.simps) (simp add: sort_inner_other)
  next
    case False
    then show ?thesis by (subst sort_outer.simps) simp
  qed
qed

lemma sort_outer_sorted:
  "n \<le> length q \<Longrightarrow> \<forall>a b. a < i \<and> a < b \<and> b < n \<longrightarrow> q ! a \<le> q ! b \<Longrightarrow>
   a < b \<Longrightarrow> b < n \<Longrightarrow> sort_outer q n i ! a \<le> sort_outer q n i ! b"
proof (induction q n i rule: sort_outer.induct)
  case (1 q n i)
  show ?case
  proof (cases "i < n")
    case True
    let ?r = "sort_inner q n i (i + 1)"
    have len: "n \<le> length ?r" using 1(2) by (simp add: length_sort_inner)
    have inv: "\<forall>a b. a < i + 1 \<and> a < b \<and> b < n \<longrightarrow> ?r ! a \<le> ?r ! b"
    proof (intro allI impI)
      fix a b assume ab: "a < i + 1 \<and> a < b \<and> b < n"
      show "?r ! a \<le> ?r ! b"
      proof (cases "a = i")
        case True
        then show ?thesis using sort_inner_min[of i "i + 1" n q b] 1(2) ab by simp
      next
        case False
        then have ai: "a < i" using ab by simp
        then have ra: "?r ! a = q ! a" by (simp add: sort_inner_other)
        show ?thesis
        proof (cases "b < i")
          case True
          then have "?r ! b = q ! b" by (simp add: sort_inner_other)
          then show ?thesis using ra 1(3) ai ab by simp
        next
          case False
          then obtain k where "i \<le> k" "k < n" "?r ! b = q ! k"
            using sort_inner_window[of i "i + 1" n q b] 1(2) ab by auto
          then show ?thesis using ra 1(3) ai by simp
        qed
      qed
    qed
    have "sort_outer ?r n (i + 1) ! a \<le> sort_outer ?r n (i + 1) ! b"
      using "1.IH"[OF True len inv] 1(4,5) by simp
    then show ?thesis using True by (subst (1 2) sort_outer.simps) simp
  next
    case False
    then show ?thesis using 1 by (subst (1 2) sort_outer.simps) simp
  qed
qed

lemma take_as_map_nth: "n \<le> length xs \<Longrightarrow> map (\<lambda>i. xs ! i) [0..<n] = take n xs"
  by (rule nth_equalityI) simp_all

lemma sort_outer_drop: "drop n (sort_outer q n 0) = drop n q"
  by (rule nth_equalityI) (simp_all add: length_sort_outer sort_outer_other)

lemma sort_outer_take_mset:
  assumes "n \<le> length q"
  shows "mset (take n (sort_outer q n 0)) = mset (take n q)"
proof -
  let ?r = "sort_outer q n 0"
  have "mset (take n ?r) + mset (drop n ?r) = mset (take n q) + mset (drop n q)"
    using mset_sort_outer[OF assms, of 0]
    by (metis append_take_drop_id mset_append)
  then show ?thesis by (simp add: sort_outer_drop)
qed

lemma sort_outer_take_sorted:
  assumes "n \<le> length q"
  shows "sorted (take n (sort_outer q n 0))"
  unfolding sorted_iff_nth_mono_less
  using sort_outer_sorted[OF assms, of 0] assms
  by (simp add: length_sort_outer)

lemma lock_quads_order:
  "n \<le> length q \<Longrightarrow> snd (lock_quads q n) = take n (sort_outer q n 0)"
  by (simp add: lock_quads_def Let_def take_as_map_nth length_sort_outer)

lemma unlock_quads_order:
  "n \<le> length q \<Longrightarrow> unlock_quads q n = rev (take n q)"
  by (simp add: unlock_quads_def rev_map[symmetric] take_as_map_nth)

lemma lock_quads_fst: "fst (lock_quads q n) = sort_outer q n 0"
  by (simp add: lock_quads_def Let_def)

lemma lock_quads_full:
  "lock_quads q (length q) = (sort q, sort q)"
proof -
  let ?r = "sort_outer q (length q) 0"
  have "sorted (take (length q) ?r)" by (rule sort_outer_take_sorted) simp
  then have "sorted ?r" by (simp add: length_sort_outer)
  moreover have "mset ?r = mset q" by (rule mset_sort_outer) simp
  ultimately have "sort q = ?r" by (simp add: properties_for_sort)
  then show ?thesis
    by (simp add: lock_quads_def Let_def take_as_map_nth length_sort_outer)
qed

lemma CrossIntersection_sorted:
  "CrossIntersection c =
     map Lock (sort (get_quads c))
     @ [Log crossing,
        Spin (case get_turn (dirs c) of LEFT_T \<Rightarrow> 5 | STRAIGHT_T \<Rightarrow> 4 | RIGHT_T \<Rightarrow> 3)]
     @ map Unlock (rev (sort (get_quads c)))"
proof -
  have "unlock_quads (sort (get_quads c)) (length (get_quads c)) = rev (sort (get_quads c))"
    by (simp add: unlock_quads_order)
  then show ?thesis
    by (cases "get_turn (dirs c)") (simp_all add: CrossIntersection_def Let_def lock_quads_full)
qed

section \<open>Results on the sequential functions\<close>

text \<open>
  C3. For every array \<open>q\<close> and count \<open>n\<close> within it, \<open>lock_quads\<close> locks the first
  \<open>n\<close> requested quadrants in ascending order (the sequence of locks is sorted and is a
  rearrangement of the request), and \<open>unlock_quads\<close>, run on the array that
  \<open>lock_quads\<close> left behind, unlocks the same mutexes in the reverse, hence descending,
  order.
\<close>

theorem lock_quads_ascending_release_descending:
  assumes "n \<le> length q"
  shows "sorted (snd (lock_quads q n))
       \<and> mset (snd (lock_quads q n)) = mset (take n q)
       \<and> unlock_quads (fst (lock_quads q n)) n = rev (snd (lock_quads q n))
       \<and> sorted (rev (unlock_quads (fst (lock_quads q n)) n))"
proof -
  have s: "snd (lock_quads q n) = take n (sort_outer q n 0)"
    using assms by (rule lock_quads_order)
  have u: "unlock_quads (fst (lock_quads q n)) n = rev (take n (sort_outer q n 0))"
    using assms by (simp add: lock_quads_fst unlock_quads_order length_sort_outer)
  show ?thesis
    using assms by (simp add: s u sort_outer_take_sorted sort_outer_take_mset)
qed

theorem lock_quads_ascending_release_descending_witness:
  "(3::nat) \<le> length [3, 0, 1 :: int]
   \<and> snd (lock_quads [3, 0, 1] 3) = [0, 1, 3]
   \<and> unlock_quads (fst (lock_quads [3, 0, 1] 3)) 3 = [3, 1, 0]"
  using lock_quads_ascending_release_descending[of 3 "[3, 0, 1]"]
  by (simp add: lock_quads_def sort_outer.simps sort_inner.simps upt_rec Let_def unlock_quads_def)

text \<open>
  C4. The turn kind and the quadrant path computed for each of the twelve direction
  pairs of the classification table are exactly the table's entries; a pair with origin
  equal to destination is Straight; the clockwise neighbour (N to E, E to S, S to W,
  W to N) is Right and the counter-clockwise neighbour is Left.
\<close>

theorem turn_classification_table:
  "route c North East = (RIGHT_T, [NE])
 \<and> route c North North = (STRAIGHT_T, [NE, SE])
 \<and> route c North West = (LEFT_T, [NE, SE, SW])
 \<and> route c East South = (RIGHT_T, [SE])
 \<and> route c East East = (STRAIGHT_T, [SE, SW])
 \<and> route c East North = (LEFT_T, [SE, SW, NW])
 \<and> route c South West = (RIGHT_T, [SW])
 \<and> route c South South = (STRAIGHT_T, [SW, NW])
 \<and> route c South East = (LEFT_T, [SW, NW, NE])
 \<and> route c West North = (RIGHT_T, [NW])
 \<and> route c West West = (STRAIGHT_T, [NW, NE])
 \<and> route c West South = (LEFT_T, [NW, NE, SE])
 \<and> fst (route c a a) = STRAIGHT_T"
  by (simp add: route_def get_turn_def get_quads_def)

text \<open>
  The four pairs of opposite directions are not in the table; the program falls through
  to the last \<^verbatim>\<open>return STRAIGHT_T\<close> for them.
\<close>

lemma route_opposite:
  "route c North South = (STRAIGHT_T, [NE, SE])"
  "route c South North = (STRAIGHT_T, [SW, NW])"
  "route c East West = (STRAIGHT_T, [SE, SW])"
  "route c West East = (STRAIGHT_T, [NW, NE])"
  by (simp_all add: route_def get_turn_def get_quads_def)

lemma dir_index_invalid_iff:
  "dir_index x = - 1 \<longleftrightarrow> x \<notin> {North, East, South, West}"
  by (simp add: dir_index_def)

lemma dir_index_range: "dir_index x = - 1 \<or> (0 \<le> dir_index x \<and> dir_index x < 4)"
  by (simp add: dir_index_def)

text \<open>
  C8, as the code has it. \<open>get_turn\<close> has no failure result: a pair in which the origin
  or the destination is not a direction character is classified as Straight, and
  \<open>dir_index\<close> answers such a character with the sentinel \<open>-1\<close>.
\<close>

theorem get_turn_total_on_invalid:
  assumes "dir_index a = - 1 \<or> dir_index b = - 1"
  shows "get_turn \<lparr>dir_original = a, dir_target = b\<rparr> = STRAIGHT_T
       \<and> (dir_index a = - 1 \<longleftrightarrow> a \<notin> {North, East, South, West})"
proof -
  have "a \<notin> {North, East, South, West} \<or> b \<notin> {North, East, South, West}"
    using assms by (simp add: dir_index_invalid_iff)
  then have "get_turn \<lparr>dir_original = a, dir_target = b\<rparr> = STRAIGHT_T"
    by (rule disjE) (simp_all add: get_turn_def)
  then show ?thesis by (simp add: dir_index_invalid_iff)
qed

theorem get_turn_total_on_invalid_witness:
  "(dir_index (CHR ''x'') = - 1 \<or> dir_index East = - 1)
   \<and> get_turn \<lparr>dir_original = CHR ''x'', dir_target = East\<rparr> = STRAIGHT_T"
  using get_turn_total_on_invalid[of "CHR ''x''" East]
  by (simp add: dir_index_def)

text \<open>
  The pair \<^verbatim>\<open>('x', 'y')\<close> is not rejected, against the wording of C8: \<open>get_turn\<close>
  returns Straight for it, and a car with that pair is started like any other. Its
  thread logs its arrival, waits at the stop sign and then uses the sentinel \<open>-1\<close> of
  \<open>dir_index\<close> as the index of \<^verbatim>\<open>hol_sem\<close>.
\<close>

theorem invalid_pair_not_rejected:
  "get_turn \<lparr>dir_original = CHR ''x'', dir_target = CHR ''y''\<rparr> = STRAIGHT_T
   \<and> dir_index (CHR ''x'') = - 1
   \<and> run [mk_car 1 (CHR ''x'') (CHR ''y'') 0] [0, 0, 0, 0, 0]
         (init [mk_car 1 (CHR ''x'') (CHR ''y'') 0])
       = Some (init_shared, [\<lparr>pc = Fault, qs = []\<rparr>])"
  by (simp add: get_turn_def dir_index_def mk_car_def init_def init_shared_def sched_step_def
      car_step_def car_dir_def in_range_def)

text \<open>
  C9. The crossing phase of a car is: its quadrant locks, taken in ascending order;
  the log line; one busy wait whose length is fixed by the turn kind, 5 seconds for
  Left, 4 for Straight, 3 for Right (so Left is strictly the longest and Right strictly
  the shortest); and right after the busy wait the release of the same locks. The locks
  are therefore held across the whole busy wait and released as soon as it ends.
\<close>

theorem crossing_duration_by_turn:
  "CrossIntersection c =
     map Lock (sort (get_quads c))
     @ [Log crossing, Spin (crossing_seconds (get_turn (dirs c)))]
     @ map Unlock (rev (sort (get_quads c)))
   \<and> crossing_seconds LEFT_T = 5 \<and> crossing_seconds STRAIGHT_T = 4
   \<and> crossing_seconds RIGHT_T = 3
   \<and> crossing_seconds RIGHT_T < crossing_seconds STRAIGHT_T
   \<and> crossing_seconds STRAIGHT_T < crossing_seconds LEFT_T"
  by (simp add: CrossIntersection_sorted crossing_seconds_def)




section \<open>Invariants of the interleaved system\<close>

lemma get_quads_distinct: "distinct (get_quads c)"
  by (simp add: get_quads_def Let_def)

lemma get_quads_in_range: "list_all in_range (get_quads c)"
  by (simp add: get_quads_def Let_def in_range_def)

lemma get_quads_length: "length (get_quads c) \<le> 3"
  by (simp add: get_quads_def Let_def)

lemma sorted_path_ok:
  "distinct (fst (lock_quads (get_quads c) (length (get_quads c))))"
  "list_all in_range (fst (lock_quads (get_quads c) (length (get_quads c))))"
  "length (fst (lock_quads (get_quads c) (length (get_quads c)))) \<le> 3"
  "sorted (fst (lock_quads (get_quads c) (length (get_quads c))))"
  using get_quads_distinct[of c] get_quads_in_range[of c] get_quads_length[of c]
  by (simp_all add: lock_quads_full list_all_iff)

lemma after_log_simps [simp]:
  "idx_ok (after_log e) n"
  "\<not> has_print (after_log e)"
  "\<not> has_turn (after_log e)"
  "in_flow (after_log e) = (e \<noteq> arriving)"
  "has_hol (after_log e) = (e \<noteq> arriving)"
  "held_at (after_log e) q = (if e = crossing then q else [])"
  "after_log e \<noteq> Fault"
  "after_log e \<noteq> CondWait"
  "after_log e \<noteq> TakeFlow"
  "after_log e \<noteq> Exited"
  by (cases e; simp)+

lemma pc_cases [case_names AtStart LogLock LogPrint StopSign SemWait TurnLockA WhileCheck
    CondWait TakeFlow TurnUnlockA GetQuads LockQuad SpinCross UnlockQuad0 UnlockQuadSuc
    TurnLockE LeaveFlow TurnUnlockE SemPost Exited Fault]:
  obtains "p = AtStart" | e where "p = LogLock e" | e where "p = LogPrint e"
  | "p = StopSign" | "p = SemWait" | "p = TurnLockA" | "p = WhileCheck" | "p = CondWait"
  | "p = TakeFlow" | "p = TurnUnlockA" | "p = GetQuads" | i where "p = LockQuad i"
  | "p = SpinCross" | "p = UnlockQuad 0" | i where "p = UnlockQuad (Suc i)"
  | "p = TurnLockE" | "p = LeaveFlow" | "p = TurnUnlockE" | "p = SemPost"
  | "p = Exited" | "p = Fault"
proof (cases p)
  case (UnlockQuad j)
  then show ?thesis using that(14,15) by (cases j) auto
qed (use that in auto)


lemma stepE:
  assumes "step cs s s'"
  obtains t sh l where "t < length cs" "t < length (snd s)"
    "pc_step (cs ! t) t (fst s) (qs (snd s ! t)) (pc (snd s ! t)) = Some (sh, l)"
    "s' = (sh, (snd s)[t := l])"
  using assms
  by (auto simp: step_def sched_step_def car_step_def split: if_splits option.splits)

lemma pc_step_local_ok:
  assumes "local_ok l" "pc_step c t sh (qs l) (pc l) = Some (sh', l')"
  shows "local_ok l'"
  using assms sorted_path_ok[of c]
  by (cases "pc l" rule: pc_cases)
     (auto simp: local_ok_def Let_def split: if_splits)

lemma pc_step_lengths:
  assumes "pc_step c t sh q p = Some (sh', l')"
  shows "length (quad sh') = length (quad sh) \<and> length (flow_count sh') = length (flow_count sh)
       \<and> length (hol_sem sh') = length (hol_sem sh)"
  using assms
  by (cases p rule: pc_cases)
     (auto simp: Let_def take_flow_def leave_flow_def split: if_splits)


lemma wrap_int_id: "INT_MIN \<le> x \<Longrightarrow> x \<le> INT_MAX \<Longrightarrow> wrap_int x = x"
  by (simp add: wrap_int_def)

lemma wrap_int_0 [simp]: "wrap_int 0 = 0"
  by (simp add: wrap_int_def)

lemma wrap_int_overflow: "wrap_int (INT_MAX + 1) = INT_MIN"
  by (simp add: wrap_int_def)

lemma take_flow_fields [simp]:
  "quad (take_flow s d) = quad s" "print_lock (take_flow s d) = print_lock s"
  "turn_lock (take_flow s d) = turn_lock s" "turn_cv (take_flow s d) = turn_cv s"
  "hol_sem (take_flow s d) = hol_sem s"
  by (simp_all add: take_flow_def)

lemma leave_flow_fields [simp]:
  "quad (leave_flow s d) = quad s" "print_lock (leave_flow s d) = print_lock s"
  "turn_lock (leave_flow s d) = turn_lock s"
  "hol_sem (leave_flow s d) = hol_sem s"
  by (simp_all add: leave_flow_def Let_def)


lemma inv_print_step:
  assumes "owner_ok has_print (print_lock sh) ls" "t < length ls"
    "pc_step c t sh (qs (ls ! t)) (pc (ls ! t)) = Some (sh', l')"
  shows "owner_ok has_print (print_lock sh') (ls[t := l'])"
  using assms
  by (cases "pc (ls ! t)" rule: pc_cases)
     (auto simp: Let_def owner_ok_def nth_list_update split: if_splits)

lemma inv_turn_step:
  assumes "owner_ok has_turn (turn_lock sh) ls" "t < length ls" "in_range (car_dir c)"
    "pc_step c t sh (qs (ls ! t)) (pc (ls ! t)) = Some (sh', l')"
  shows "owner_ok has_turn (turn_lock sh') (ls[t := l'])"
  using assms
  by (cases "pc (ls ! t)" rule: pc_cases)
     (auto simp: Let_def owner_ok_def nth_list_update split: if_splits)


lemma nth_notin_take: "distinct xs \<Longrightarrow> i < length xs \<Longrightarrow> xs ! i \<notin> set (take i xs)"
  by (metis distinct_take id_take_nth_drop not_distinct_conv_prefix)

lemma inv_quadD1:
  "inv_quad (sh, ls) \<Longrightarrow> k < 4 \<Longrightarrow> t < length ls \<Longrightarrow>
   (int k \<in> held (ls ! t)) = (quad sh ! k = Some t)"
  by (simp add: inv_quad_def)

lemma inv_quadD2: "inv_quad (sh, ls) \<Longrightarrow> k < 4 \<Longrightarrow> quad sh ! k = Some t \<Longrightarrow> t < length ls"
  by (simp add: inv_quad_def)

lemma inv_quadI:
  assumes "\<And>k t. k < 4 \<Longrightarrow> t < length ls \<Longrightarrow> (int k \<in> held (ls ! t)) = (quad sh ! k = Some t)"
    and "\<And>k t. k < 4 \<Longrightarrow> quad sh ! k = Some t \<Longrightarrow> t < length ls"
  shows "inv_quad (sh, ls)"
  using assms by (simp add: inv_quad_def)

text \<open>A step that leaves the quadrant mutexes and the held set of the thread as they are.\<close>

lemma inv_quad_keep:
  assumes "inv_quad (sh, ls)" "t < length ls" "quad sh' = quad sh" "held l' = held (ls ! t)"
  shows "inv_quad (sh', ls[t := l'])"
  using assms by (auto simp: inv_quad_def nth_list_update)

lemma inv_quad_step:
  assumes "inv_quad (sh, ls)" "local_ok (ls ! t)" "length (quad sh) = 4" "t < length ls"
    "pc_step c t sh (qs (ls ! t)) (pc (ls ! t)) = Some (sh', l')"
  shows "inv_quad (sh', ls[t := l'])"
proof (cases "pc (ls ! t)" rule: pc_cases)
  case (LockQuad i)
  then have p: "pc (ls ! t) = LockQuad i" .
  let ?q = "qs (ls ! t)"
  show ?thesis
  proof (cases "i < length ?q")
    case True
    let ?k = "?q ! i"
    have kr: "in_range ?k" using assms(2) True by (simp add: local_ok_def list_all_length)
    then have free: "quad sh ! nat ?k = None"
      and sh': "quad sh' = (quad sh)[nat ?k := Some t]"
      and l': "l' = \<lparr>pc = LockQuad (i + 1), qs = ?q\<rparr>"
      using assms(5) p True by (auto simp: Let_def split: if_splits)
    have kn: "nat ?k < 4" "int (nat ?k) = ?k" using kr by (auto simp: in_range_def)
    have old: "held (ls ! t) = set (take i ?q)" by (simp add: held_def p)
    have new: "held l' = insert ?k (set (take i ?q))"
      using True by (simp add: held_def l' take_Suc_conv_app_nth)
    show ?thesis
    proof (rule inv_quadI)
      fix k :: nat and t' :: nat
      assume k: "k < 4" and t': "t' < length (ls[t := l'])"
      have ih: "(int k \<in> held (ls ! t')) = (quad sh ! k = Some t')"
        using inv_quadD1[OF assms(1) k] t' by simp
      show "(int k \<in> held (ls[t := l'] ! t')) = (quad sh' ! k = Some t')"
      proof (cases "k = nat ?k")
        case True
        then show ?thesis
          using ih free kn assms(3,4) t' by (auto simp: sh' new nth_list_update)
      next
        case False
        then have "int k \<noteq> ?k" using kn by auto
        then show ?thesis
          using ih False old assms(3,4) t' by (auto simp: sh' new nth_list_update)
      qed
    next
      fix k :: nat and t' :: nat
      assume "k < 4" "quad sh' ! k = Some t'"
      then show "t' < length (ls[t := l'])"
        using inv_quadD2[OF assms(1), of k t'] assms(3,4) kn
        by (auto simp: sh' nth_list_update split: if_splits)
    qed
  next
    case False
    then have "i = length ?q" using assms(2) p by (simp add: local_ok_def)
    then show ?thesis
      using assms p False by (intro inv_quad_keep) (auto simp: held_def)
  qed
next
  case (UnlockQuadSuc i)
  then have p: "pc (ls ! t) = UnlockQuad (Suc i)" .
  let ?q = "qs (ls ! t)"
  let ?k = "?q ! i"
  have il: "i < length ?q" using assms(2) p by (simp add: local_ok_def)
  have kr: "in_range ?k" using assms(2) il by (simp add: local_ok_def list_all_length)
  have sh': "quad sh' = (quad sh)[nat ?k := None]"
    and l': "l' = \<lparr>pc = UnlockQuad i, qs = ?q\<rparr>"
    using assms(5) p il kr by auto
  have kn: "nat ?k < 4" "int (nat ?k) = ?k" using kr by (auto simp: in_range_def)
  have notin: "?k \<notin> set (take i ?q)"
    using assms(2) il by (simp add: local_ok_def nth_notin_take)
  have old: "held (ls ! t) = insert ?k (set (take i ?q))"
    using il by (simp add: held_def p take_Suc_conv_app_nth)
  have new: "held l' = set (take i ?q)" by (simp add: held_def l')
  have mine: "quad sh ! nat ?k = Some t"
    using inv_quadD1[OF assms(1) kn(1) assms(4)] kn old by simp
  show ?thesis
  proof (rule inv_quadI)
    fix k :: nat and t' :: nat
    assume k: "k < 4" and t': "t' < length (ls[t := l'])"
    have ih: "(int k \<in> held (ls ! t')) = (quad sh ! k = Some t')"
      using inv_quadD1[OF assms(1) k] t' by simp
    show "(int k \<in> held (ls[t := l'] ! t')) = (quad sh' ! k = Some t')"
    proof (cases "k = nat ?k")
      case True
      then show ?thesis
        using ih mine kn notin assms(3,4) t' by (auto simp: sh' new nth_list_update)
    next
      case False
      then have "int k \<noteq> ?k" using kn by auto
      then show ?thesis
        using ih False old assms(3,4) t' by (auto simp: sh' new nth_list_update)
    qed
  next
    fix k :: nat and t' :: nat
    assume "k < 4" "quad sh' ! k = Some t'"
    then show "t' < length (ls[t := l'])"
      using inv_quadD2[OF assms(1), of k t'] assms(3,4) kn
      by (auto simp: sh' nth_list_update split: if_splits)
  qed
qed (use assms in \<open>auto simp: Let_def held_def split: if_splits intro!: inv_quad_keep\<close>)

lemma inv_hol_keep:
  assumes "inv_hol cs (sh, ls)" "t < length ls" "hol_sem sh' = hol_sem sh"
    "has_hol (pc l') = has_hol (pc (ls ! t))"
  shows "inv_hol cs (sh', ls[t := l'])"
proof -
  have eq: "\<And>u. u < length ls \<Longrightarrow> has_hol (pc (ls[t := l'] ! u)) = has_hol (pc (ls ! u))"
    using assms(2,4) by (simp add: nth_list_update)
  show ?thesis
    using assms(1,3) by (simp add: inv_hol_def eq cong: conj_cong)
qed

lemma inv_holI:
  assumes "\<And>t. t < length ls \<Longrightarrow> has_hol (pc (ls ! t)) \<Longrightarrow> hol_sem sh ! nat (car_dir (cs ! t)) = 0"
    and "\<And>t u. t < length ls \<Longrightarrow> u < length ls \<Longrightarrow> has_hol (pc (ls ! t)) \<Longrightarrow>
           has_hol (pc (ls ! u)) \<Longrightarrow> car_dir (cs ! t) = car_dir (cs ! u) \<Longrightarrow> t = u"
    and "\<And>d. d < 4 \<Longrightarrow> hol_sem sh ! d = 0 \<Longrightarrow>
           \<exists>t < length ls. has_hol (pc (ls ! t)) \<and> car_dir (cs ! t) = int d"
    and "\<And>d. d < 4 \<Longrightarrow> hol_sem sh ! d \<le> 1"
  shows "inv_hol cs (sh, ls)"
  using assms unfolding inv_hol_def fst_conv snd_conv by blast

lemma inv_holD:
  assumes "inv_hol cs (sh, ls)"
  shows "\<And>t. t < length ls \<Longrightarrow> has_hol (pc (ls ! t)) \<Longrightarrow> hol_sem sh ! nat (car_dir (cs ! t)) = 0"
    and "\<And>t u. t < length ls \<Longrightarrow> u < length ls \<Longrightarrow> has_hol (pc (ls ! t)) \<Longrightarrow>
           has_hol (pc (ls ! u)) \<Longrightarrow> car_dir (cs ! t) = car_dir (cs ! u) \<Longrightarrow> t = u"
    and "\<And>d. d < 4 \<Longrightarrow> hol_sem sh ! d = 0 \<Longrightarrow>
           \<exists>t < length ls. has_hol (pc (ls ! t)) \<and> car_dir (cs ! t) = int d"
    and "\<And>d. d < 4 \<Longrightarrow> hol_sem sh ! d \<le> 1"
  using assms unfolding inv_hol_def fst_conv snd_conv by blast+


lemma in_range_nat: "in_range d \<Longrightarrow> nat d < 4 \<and> 0 \<le> d"
  by (auto simp: in_range_def)

lemma inv_hol_step:
  assumes inv: "inv_hol cs (sh, ls)" and len: "length (hol_sem sh) = 4" and t: "t < length ls"
    and valid: "\<And>u. u < length ls \<Longrightarrow> in_range (car_dir (cs ! u))"
    and ok: "local_ok (ls ! t)"
    and st: "pc_step (cs ! t) t sh (qs (ls ! t)) (pc (ls ! t)) = Some (sh', l')"
  shows "inv_hol cs (sh', ls[t := l'])"
proof (cases "pc (ls ! t)" rule: pc_cases)
  have d: "in_range (car_dir (cs ! t))" using valid t by simp
  case SemWait
  let ?d = "nat (car_dir (cs ! t))"
  note dn = in_range_nat[OF d]
  have pos: "0 < hol_sem sh ! ?d"
    and sh': "hol_sem sh' = (hol_sem sh)[?d := hol_sem sh ! ?d - 1]"
    and l': "pc l' = TurnLockA"
    using st SemWait d by (auto simp: Let_def split: if_splits)
  have one: "hol_sem sh ! ?d = 1" using pos inv_holD(4)[OF inv, of ?d] dn by simp
  have nobody: "\<And>u. u < length ls \<Longrightarrow> has_hol (pc (ls ! u)) \<Longrightarrow> car_dir (cs ! u) \<noteq> car_dir (cs ! t)"
    using inv_holD(1)[OF inv] pos by fastforce
  show ?thesis
  proof (rule inv_holI)
    fix u assume "u < length (ls[t := l'])" "has_hol (pc (ls[t := l'] ! u))"
    then show "hol_sem sh' ! nat (car_dir (cs ! u)) = 0"
      using inv_holD(1)[OF inv, of u] nobody[of u] one len dn t in_range_nat[OF valid[of u]]
      by (cases "u = t") (auto simp: sh' nth_list_update)
  next
    fix u v assume "u < length (ls[t := l'])" "v < length (ls[t := l'])"
      "has_hol (pc (ls[t := l'] ! u))" "has_hol (pc (ls[t := l'] ! v))"
      "car_dir (cs ! u) = car_dir (cs ! v)"
    then show "u = v"
      using inv_holD(2)[OF inv, of u v] nobody[of u] nobody[of v] t
      by (cases "u = t"; cases "v = t") (auto simp: nth_list_update)
  next
    fix e :: nat assume e: "e < 4" "hol_sem sh' ! e = 0"
    show "\<exists>u<length (ls[t := l']). has_hol (pc (ls[t := l'] ! u)) \<and> car_dir (cs ! u) = int e"
    proof (cases "e = ?d")
      case True
      then show ?thesis using t l' dn by (intro exI[of _ t]) simp
    next
      case False
      then have "hol_sem sh ! e = 0" using e len by (simp add: sh')
      then obtain u where u: "u < length ls" "has_hol (pc (ls ! u))" "car_dir (cs ! u) = int e"
        using inv_holD(3)[OF inv e(1)] by blast
      then have "u \<noteq> t" using SemWait by auto
      then show ?thesis using u by (intro exI[of _ u]) simp
    qed
  next
    fix e :: nat assume "e < 4"
    then show "hol_sem sh' ! e \<le> 1"
      using inv_holD(4)[OF inv, of e] len dn by (auto simp: sh' nth_list_update)
  qed
next
  have d: "in_range (car_dir (cs ! t))" using valid t by simp
  case SemPost
  let ?d = "nat (car_dir (cs ! t))"
  note dn = in_range_nat[OF d]
  have sh': "hol_sem sh' = (hol_sem sh)[?d := hol_sem sh ! ?d + 1]"
    and l': "pc l' = Exited"
    using st SemPost d by (auto simp: Let_def split: if_splits)
  have zero: "hol_sem sh ! ?d = 0" using inv_holD(1)[OF inv t] SemPost by simp
  have nobody: "\<And>u. u < length ls \<Longrightarrow> u \<noteq> t \<Longrightarrow> has_hol (pc (ls ! u)) \<Longrightarrow>
      car_dir (cs ! u) \<noteq> car_dir (cs ! t)"
    using inv_holD(2)[OF inv _ t] SemPost by fastforce
  show ?thesis
  proof (rule inv_holI)
    fix u assume "u < length (ls[t := l'])" "has_hol (pc (ls[t := l'] ! u))"
    then show "hol_sem sh' ! nat (car_dir (cs ! u)) = 0"
      using inv_holD(1)[OF inv, of u] nobody[of u] len dn t l' in_range_nat[OF valid[of u]]
      by (cases "u = t") (auto simp: sh' nth_list_update)
  next
    fix u v assume "u < length (ls[t := l'])" "v < length (ls[t := l'])"
      "has_hol (pc (ls[t := l'] ! u))" "has_hol (pc (ls[t := l'] ! v))"
      "car_dir (cs ! u) = car_dir (cs ! v)"
    then show "u = v"
      using inv_holD(2)[OF inv, of u v] t l'
      by (cases "u = t"; cases "v = t") (auto simp: nth_list_update)
  next
    fix e :: nat assume e: "e < 4" "hol_sem sh' ! e = 0"
    then have ne: "e \<noteq> ?d" using len dn by (auto simp: sh')
    then have "hol_sem sh ! e = 0" using e len by (simp add: sh')
    then obtain u where u: "u < length ls" "has_hol (pc (ls ! u))" "car_dir (cs ! u) = int e"
      using inv_holD(3)[OF inv e(1)] by blast
    then have "u \<noteq> t" using ne dn by auto
    then show "\<exists>u<length (ls[t := l']). has_hol (pc (ls[t := l'] ! u)) \<and> car_dir (cs ! u) = int e"
      using u by (intro exI[of _ u]) simp
  next
    fix e :: nat assume "e < 4"
    then show "hol_sem sh' ! e \<le> 1"
      using inv_holD(4)[OF inv, of e] len dn zero by (auto simp: sh' nth_list_update)
  qed
qed (use inv t valid[OF t] ok st in \<open>auto simp: Let_def local_ok_def list_all_length split: if_splits intro!: inv_hol_keep\<close>)

lemma in_flow_has_hol: "in_flow p \<Longrightarrow> has_hol p"
  by (cases p) auto

lemma inv_flowI:
  assumes "\<And>t. t < length ls \<Longrightarrow> in_flow (pc (ls ! t)) \<Longrightarrow> current_direction sh = car_dir (cs ! t)"
    and "\<And>d. d < 4 \<Longrightarrow> flow_count sh ! d =
           (if \<exists>t < length ls. in_flow (pc (ls ! t)) \<and> car_dir (cs ! t) = int d then 1 else 0)"
    and "current_direction sh = - 1
         \<or> (\<exists>t < length ls. in_flow (pc (ls ! t)) \<and> car_dir (cs ! t) = current_direction sh)"
    and "\<And>t. t < length ls \<Longrightarrow> pc (ls ! t) = TakeFlow \<Longrightarrow> current_direction sh = - 1"
  shows "inv_flow cs (sh, ls)"
  using assms unfolding inv_flow_def fst_conv snd_conv by blast

lemma inv_flowD:
  assumes "inv_flow cs (sh, ls)"
  shows "\<And>t. t < length ls \<Longrightarrow> in_flow (pc (ls ! t)) \<Longrightarrow> current_direction sh = car_dir (cs ! t)"
    and "\<And>d. d < 4 \<Longrightarrow> flow_count sh ! d =
           (if \<exists>t < length ls. in_flow (pc (ls ! t)) \<and> car_dir (cs ! t) = int d then 1 else 0)"
    and "current_direction sh = - 1
         \<or> (\<exists>t < length ls. in_flow (pc (ls ! t)) \<and> car_dir (cs ! t) = current_direction sh)"
    and "\<And>t. t < length ls \<Longrightarrow> pc (ls ! t) = TakeFlow \<Longrightarrow> current_direction sh = - 1"
  using assms unfolding inv_flow_def fst_conv snd_conv by blast+

lemma inv_flow_keep:
  assumes "inv_flow cs (sh, ls)" "t < length ls"
    "current_direction sh' = current_direction sh" "flow_count sh' = flow_count sh"
    "in_flow (pc l') = in_flow (pc (ls ! t))" "pc l' \<noteq> TakeFlow"
  shows "inv_flow cs (sh', ls[t := l'])"
proof -
  have eq: "\<And>u. u < length ls \<Longrightarrow> in_flow (pc (ls[t := l'] ! u)) = in_flow (pc (ls ! u))"
    using assms(2,5) by (simp add: nth_list_update)
  have tf: "\<And>u. u < length ls \<Longrightarrow> pc (ls[t := l'] ! u) = TakeFlow \<Longrightarrow> pc (ls ! u) = TakeFlow"
    using assms(2,6) by (simp add: nth_list_update split: if_splits)
  show ?thesis
    using assms(1,3,4) tf unfolding inv_flow_def fst_conv snd_conv
    by (simp add: eq cong: conj_cong)
qed

lemma owner_ok_unique:
  "owner_ok P m ls \<Longrightarrow> t < length ls \<Longrightarrow> u < length ls \<Longrightarrow> P (pc (ls ! t)) \<Longrightarrow>
   P (pc (ls ! u)) \<Longrightarrow> t = u"
  by (auto simp: owner_ok_def)


lemma inv_flow_step:
  assumes inv: "inv_flow cs (sh, ls)" and hol: "inv_hol cs (sh, ls)"
    and turn: "owner_ok has_turn (turn_lock sh) ls"
    and len: "length (flow_count sh) = 4" and t: "t < length ls"
    and valid: "\<And>u. u < length ls \<Longrightarrow> in_range (car_dir (cs ! u))"
    and ok: "local_ok (ls ! t)"
    and st: "pc_step (cs ! t) t sh (qs (ls ! t)) (pc (ls ! t)) = Some (sh', l')"
  shows "inv_flow cs (sh', ls[t := l'])"
proof (cases "pc (ls ! t)" rule: pc_cases)
  case WhileCheck
  show ?thesis
  proof (cases "current_direction sh \<noteq> - 1 \<and> current_direction sh \<noteq> car_dir (cs ! t)")
    case True
    then show ?thesis
      using inv t st WhileCheck by (auto intro!: inv_flow_keep)
  next
    case False
    then have sh': "sh' = sh" and l': "pc l' = TakeFlow" using st WhileCheck by auto
    have free: "current_direction sh = - 1"
    proof (rule ccontr)
      assume ne: "current_direction sh \<noteq> - 1"
      then have eq: "current_direction sh = car_dir (cs ! t)" using False by simp
      obtain u where u: "u < length ls" "in_flow (pc (ls ! u))"
          "car_dir (cs ! u) = current_direction sh"
        using inv_flowD(3)[OF inv] ne by blast
      have "u = t"
        using inv_holD(2)[OF hol u(1) t] u eq WhileCheck by (simp add: in_flow_has_hol)
      then show False using u(2) WhileCheck by simp
    qed
    show ?thesis
    proof (rule inv_flowI)
      fix u assume "u < length (ls[t := l'])" "in_flow (pc (ls[t := l'] ! u))"
      then show "current_direction sh' = car_dir (cs ! u)"
        using inv_flowD(1)[OF inv, of u] l' sh' by (cases "u = t") auto
    next
      fix d :: nat assume "d < 4"
      have "\<And>u. u < length ls \<Longrightarrow> in_flow (pc (ls[t := l'] ! u)) = in_flow (pc (ls ! u))"
        using t l' WhileCheck by (auto simp: nth_list_update)
      then show "flow_count sh' ! d =
          (if \<exists>u<length (ls[t := l']). in_flow (pc (ls[t := l'] ! u)) \<and> car_dir (cs ! u) = int d
           then 1 else 0)"
        using inv_flowD(2)[OF inv \<open>d < 4\<close>] sh' by (simp cong: conj_cong)
    next
      show "current_direction sh' = - 1 \<or>
          (\<exists>u<length (ls[t := l']). in_flow (pc (ls[t := l'] ! u))
             \<and> car_dir (cs ! u) = current_direction sh')"
        using free sh' by simp
    next
      fix u assume "u < length (ls[t := l'])" "pc (ls[t := l'] ! u) = TakeFlow"
      show "current_direction sh' = - 1" using free sh' by simp
    qed
  qed
next
  case TakeFlow
  let ?d = "car_dir (cs ! t)"
  note dn = in_range_nat[OF valid[OF t]]
  have free: "current_direction sh = - 1" using inv_flowD(4)[OF inv t TakeFlow] .
  have nobody: "\<And>u. u < length ls \<Longrightarrow> \<not> in_flow (pc (ls ! u))"
    using inv_flowD(1)[OF inv] free in_range_nat[OF valid] by fastforce
  have zero: "\<And>e. e < 4 \<Longrightarrow> flow_count sh ! e = 0"
    using inv_flowD(2)[OF inv] nobody by auto
  have cd': "current_direction sh' = ?d"
    and fc': "flow_count sh' = (flow_count sh)[nat ?d := 1]"
    and l': "pc l' = TurnUnlockA"
    using st TakeFlow valid[OF t] free by (auto simp: Let_def take_flow_def)
  have flow': "\<And>u. u < length ls \<Longrightarrow> in_flow (pc (ls[t := l'] ! u)) = (u = t)"
    using nobody l' t by (simp add: nth_list_update)
  show ?thesis
  proof (rule inv_flowI)
    fix u assume "u < length (ls[t := l'])" "in_flow (pc (ls[t := l'] ! u))"
    then show "current_direction sh' = car_dir (cs ! u)"
      using flow' cd' by simp
  next
    fix e :: nat assume e: "e < 4"
    have "(\<exists>u<length (ls[t := l']). in_flow (pc (ls[t := l'] ! u)) \<and> car_dir (cs ! u) = int e)
          = (e = nat ?d)"
      using flow' t dn by (auto cong: conj_cong)
    then show "flow_count sh' ! e =
        (if \<exists>u<length (ls[t := l']). in_flow (pc (ls[t := l'] ! u)) \<and> car_dir (cs ! u) = int e
         then 1 else 0)"
      using zero[OF e] e len dn by (simp add: fc' nth_list_update)
  next
    show "current_direction sh' = - 1 \<or>
        (\<exists>u<length (ls[t := l']). in_flow (pc (ls[t := l'] ! u))
           \<and> car_dir (cs ! u) = current_direction sh')"
      using t cd' l' by (intro disjI2 exI[of _ t]) simp
  next
    fix u assume u: "u < length (ls[t := l'])" "pc (ls[t := l'] ! u) = TakeFlow"
    then have "u \<noteq> t" using l' t by auto
    then have "pc (ls ! u) = TakeFlow" using u by simp
    then have "u = t" using owner_ok_unique[OF turn _ t, of u] u(1) TakeFlow by simp
    then show "current_direction sh' = - 1" using \<open>u \<noteq> t\<close> by simp
  qed
next
  case LeaveFlow
  let ?d = "car_dir (cs ! t)"
  note dn = in_range_nat[OF valid[OF t]]
  have own: "current_direction sh = ?d" using inv_flowD(1)[OF inv t] LeaveFlow by simp
  have "\<exists>u<length ls. in_flow (pc (ls ! u)) \<and> car_dir (cs ! u) = int (nat ?d)"
    using t LeaveFlow dn by (intro exI[of _ t]) simp
  then have one: "flow_count sh ! nat ?d = 1"
    using inv_flowD(2)[OF inv, of "nat ?d"] dn by simp
  have only: "\<And>u. u < length ls \<Longrightarrow> in_flow (pc (ls ! u)) \<Longrightarrow> u = t"
  proof -
    fix u assume u: "u < length ls" "in_flow (pc (ls ! u))"
    then have "car_dir (cs ! u) = ?d" using inv_flowD(1)[OF inv u] own by simp
    then show "u = t"
      using inv_holD(2)[OF hol u(1) t] u(2) LeaveFlow by (simp add: in_flow_has_hol)
  qed
  have cd': "current_direction sh' = - 1"
    and fc': "flow_count sh' = (flow_count sh)[nat ?d := 0]"
    and l': "pc l' = TurnUnlockE"
    using st LeaveFlow valid[OF t] one len dn by (auto simp: Let_def leave_flow_def)
  have flow': "\<And>u. u < length ls \<Longrightarrow> \<not> in_flow (pc (ls[t := l'] ! u))"
    using only l' t by (auto simp: nth_list_update)
  show ?thesis
  proof (rule inv_flowI)
    fix u assume "u < length (ls[t := l'])" "in_flow (pc (ls[t := l'] ! u))"
    then show "current_direction sh' = car_dir (cs ! u)"
      using flow' by simp
  next
    fix e :: nat assume e: "e < 4"
    have old: "e \<noteq> nat ?d \<Longrightarrow> flow_count sh ! e = 0"
      using inv_flowD(2)[OF inv e] only dn by auto
    show "flow_count sh' ! e =
        (if \<exists>u<length (ls[t := l']). in_flow (pc (ls[t := l'] ! u)) \<and> car_dir (cs ! u) = int e
         then 1 else 0)"
      using old e len dn flow' by (auto simp: fc' nth_list_update)
  next
    show "current_direction sh' = - 1 \<or>
        (\<exists>u<length (ls[t := l']). in_flow (pc (ls[t := l'] ! u))
           \<and> car_dir (cs ! u) = current_direction sh')"
      using cd' by simp
  next
    fix u assume "u < length (ls[t := l'])" "pc (ls[t := l'] ! u) = TakeFlow"
    show "current_direction sh' = - 1" using cd' .
  qed
qed (use inv t valid[OF t] ok st in \<open>auto simp: Let_def local_ok_def list_all_length split: if_splits intro!: inv_flow_keep\<close>)

lemma inv_wait_step:
  assumes inv: "inv_wait (sh, ls)" and len: "length (flow_count sh) = 4" and t: "t < length ls"
    and valid: "in_range (car_dir c)" and ok: "local_ok (ls ! t)"
    and st: "pc_step c t sh (qs (ls ! t)) (pc (ls ! t)) = Some (sh', l')"
  shows "inv_wait (sh', ls[t := l'])"
  using assms
  by (cases "pc (ls ! t)" rule: pc_cases)
     (auto simp: inv_wait_def Let_def nth_list_update take_flow_def leave_flow_def
        local_ok_def list_all_length in_range_def split: if_splits)

lemma no_fault_step:
  assumes inv: "no_fault (sh, ls)" and t: "t < length ls"
    and valid: "in_range (car_dir c)" and ok: "local_ok (ls ! t)"
    and st: "pc_step c t sh (qs (ls ! t)) (pc (ls ! t)) = Some (sh', l')"
  shows "no_fault (sh', ls[t := l'])"
  using assms
  by (cases "pc (ls ! t)" rule: pc_cases)
     (auto simp: no_fault_def Let_def nth_list_update local_ok_def list_all_length
        split: if_splits)

lemma four_cases: "k < (4::nat) \<Longrightarrow> k = 0 \<or> k = 1 \<or> k = 2 \<or> k = 3"
  by arith

lemma replicate4_nth: "k < 4 \<Longrightarrow> [a, a, a, a] ! k = a"
  by (drule four_cases) auto

lemma valid_carsD: "valid_cars cs \<Longrightarrow> t < length cs \<Longrightarrow> in_range (car_dir (cs ! t))"
  by (simp add: valid_cars_def list_all_length)

lemma inv_all_init: "inv_all cs (init cs)"
  unfolding inv_all_def
proof (intro conjI)
  show "inv_shape cs (init cs)"
    by (simp add: inv_shape_def init_def init_shared_def local_ok_def)
  show "inv_print (init cs)"
    by (simp add: inv_print_def owner_ok_def init_def init_shared_def)
  show "inv_turn (init cs)"
    by (simp add: inv_turn_def owner_ok_def init_def init_shared_def)
  show "inv_quad (init cs)"
    by (simp add: inv_quad_def held_def init_def init_shared_def replicate4_nth)
  show "inv_hol cs (init cs)"
    by (simp add: inv_hol_def init_def init_shared_def replicate4_nth)
  show "inv_flow cs (init cs)"
    by (simp add: inv_flow_def init_def init_shared_def replicate4_nth cong: conj_cong)
  show "inv_wait (init cs)"
    by (simp add: inv_wait_def init_def)
  show "no_fault (init cs)"
    by (simp add: no_fault_def init_def)
qed

lemma inv_all_step:
  assumes valid: "valid_cars cs" and inv: "inv_all cs s" and st: "step cs s s'"
  shows "inv_all cs s'"
proof -
  obtain sh ls where s: "s = (sh, ls)" by (cases s)
  from st obtain t sh' l' where t: "t < length cs" "t < length ls"
    and ps: "pc_step (cs ! t) t sh (qs (ls ! t)) (pc (ls ! t)) = Some (sh', l')"
    and s': "s' = (sh', ls[t := l'])"
    unfolding s by (rule stepE) auto
  have shape: "inv_shape cs (sh, ls)" and prt: "owner_ok has_print (print_lock sh) ls"
    and trn: "owner_ok has_turn (turn_lock sh) ls" and qd: "inv_quad (sh, ls)"
    and hol: "inv_hol cs (sh, ls)" and flw: "inv_flow cs (sh, ls)"
    and wt: "inv_wait (sh, ls)" and nf: "no_fault (sh, ls)"
    using inv by (simp_all add: inv_all_def s inv_print_def inv_turn_def)
  have len: "length ls = length cs" "length (quad sh) = 4" "length (flow_count sh) = 4"
      "length (hol_sem sh) = 4"
    and ok: "local_ok (ls ! t)"
    using shape t by (simp_all add: inv_shape_def)
  have vt: "in_range (car_dir (cs ! t))" using valid t(1) by (rule valid_carsD)
  have vall: "\<And>u. u < length ls \<Longrightarrow> in_range (car_dir (cs ! u))"
    using valid len by (simp add: valid_carsD)
  have ok': "local_ok l'"
    using ok ps by (rule pc_step_local_ok)
  have lens: "length (quad sh') = 4" "length (flow_count sh') = 4" "length (hol_sem sh') = 4"
    using pc_step_lengths[OF ps] len by simp_all
  have "\<And>u. u < length ls \<Longrightarrow> local_ok (ls[t := l'] ! u)"
  proof -
    fix u assume u: "u < length ls"
    then have "local_ok (ls ! u)" using shape by (simp add: inv_shape_def)
    then show "local_ok (ls[t := l'] ! u)" using ok' u by (cases "u = t") simp_all
  qed
  then have "inv_shape cs (sh', ls[t := l'])"
    using len(1) lens by (simp add: inv_shape_def)
  moreover have "inv_print (sh', ls[t := l'])"
    using inv_print_step[OF prt t(2) ps] by (simp add: inv_print_def)
  moreover have "inv_turn (sh', ls[t := l'])"
    using inv_turn_step[OF trn t(2) vt ps] by (simp add: inv_turn_def)
  moreover have "inv_quad (sh', ls[t := l'])"
    using qd ok len(2) t(2) ps by (rule inv_quad_step)
  moreover have "inv_hol cs (sh', ls[t := l'])"
    using hol len(4) t(2) vall ok ps by (rule inv_hol_step)
  moreover have "inv_flow cs (sh', ls[t := l'])"
    using flw hol trn len(3) t(2) vall ok ps by (rule inv_flow_step)
  moreover have "inv_wait (sh', ls[t := l'])"
    using wt len(3) t(2) vt ok ps by (rule inv_wait_step)
  moreover have "no_fault (sh', ls[t := l'])"
    using nf t(2) vt ok ps by (rule no_fault_step)
  ultimately show ?thesis by (simp add: inv_all_def s')
qed

lemma wakeE:
  assumes "wake s s'"
  obtains t where "t < length (snd s)" "pc (snd s ! t) = CondWait" "t \<in> turn_cv (fst s)"
    "s' = ((fst s)\<lparr>turn_cv := turn_cv (fst s) - {t}\<rparr>, snd s)"
  using assms by (auto simp: wake_def wake_step_def split: if_splits)

text \<open>A wake-up without broadcast changes the wait set only.\<close>

lemma inv_all_wake:
  assumes inv: "inv_all cs s" and w: "wake s s'"
  shows "inv_all cs s'"
proof -
  obtain sh ls where s: "s = (sh, ls)" by (cases s)
  from w obtain t where s': "s' = (sh\<lparr>turn_cv := turn_cv sh - {t}\<rparr>, ls)"
    unfolding s by (rule wakeE) simp
  have "inv_shape cs (sh, ls)" "inv_print (sh, ls)" "inv_turn (sh, ls)" "inv_quad (sh, ls)"
    "inv_hol cs (sh, ls)" "inv_flow cs (sh, ls)" "inv_wait (sh, ls)" "no_fault (sh, ls)"
    using inv by (simp_all add: inv_all_def s)
  then have "inv_shape cs s'" "inv_print s'" "inv_turn s'" "inv_quad s'"
    "inv_hol cs s'" "inv_flow cs s'" "inv_wait s'" "no_fault s'"
    by (simp_all add: s' inv_shape_def inv_print_def inv_turn_def inv_quad_def
        inv_hol_def inv_flow_def inv_wait_def no_fault_def)
  then show ?thesis by (simp add: inv_all_def)
qed

lemma reachable_inv_all:
  assumes "valid_cars cs" "reachable cs s"
  shows "inv_all cs s"
  using assms(2,1)
proof (induction rule: reachable.induct)
  case reach_init
  show ?case by (rule inv_all_init)
next
  case (reach_step s s')
  then show ?case using inv_all_step by blast
next
  case (reach_wake s s')
  then show ?case using inv_all_wake by blast
qed

lemma held_at_subset: "set (held_at p q) \<subseteq> set q"
  by (cases p) (auto dest: in_set_takeD)

lemma reachable_run:
  "reachable cs s \<Longrightarrow> run cs sched s = Some s' \<Longrightarrow> reachable cs s'"
proof (induction sched arbitrary: s)
  case Nil
  then show ?case by simp
next
  case (Cons t ts)
  then obtain s1 where s1: "sched_step cs t s = Some s1" "run cs ts s1 = Some s'"
    by (auto split: option.splits)
  then have "t < length cs" by (auto simp: sched_step_def split: if_splits)
  then have "step cs s s1" using s1(1) by (auto simp: step_def)
  then show ?case using Cons.IH[OF reach_step[OF Cons.prems(1)] s1(2)] by simp
qed

text \<open>
  C1. In every reachable state of a manifest of valid cars, a quadrant that is among
  the locks held by one thread is not among the locks held by any other thread, and
  the mutex of that quadrant records exactly that thread as its holder. So each of
  the four quadrant mutexes is held by at most one vehicle at any moment.
\<close>

theorem quadrant_mutual_exclusion:
  assumes "valid_cars cs" "reachable cs s" "t1 < length cs" "t2 < length cs"
    "k \<in> held (snd s ! t1)" "k \<in> held (snd s ! t2)"
  shows "t1 = t2 \<and> in_range k \<and> quad (fst s) ! nat k = Some t1"
proof -
  obtain sh ls where s: "s = (sh, ls)" by (cases s)
  have inv: "inv_all cs (sh, ls)" using assms(1,2) unfolding s by (rule reachable_inv_all)
  then have shape: "inv_shape cs (sh, ls)" and qd: "inv_quad (sh, ls)"
    by (simp_all add: inv_all_def)
  have t: "t1 < length ls" "t2 < length ls" using shape assms(3,4) by (simp_all add: inv_shape_def)
  have "local_ok (ls ! t1)" using shape t by (simp add: inv_shape_def)
  moreover have "k \<in> set (qs (ls ! t1))"
    using assms(5) held_at_subset by (auto simp: held_def s)
  ultimately have kr: "in_range k" by (auto simp: local_ok_def list_all_iff)
  then have kn: "nat k < 4" "int (nat k) = k" by (auto simp: in_range_def)
  have "quad sh ! nat k = Some t1" "quad sh ! nat k = Some t2"
    using inv_quadD1[OF qd kn(1) t(1)] inv_quadD1[OF qd kn(1) t(2)] assms(5,6) kn(2)
    by (simp_all add: s)
  then show ?thesis using kr by (simp add: s)
qed

lemmas eval_defs = cars_def mk_car_def init_def init_shared_def sched_step_def car_step_def
  car_dir_def dir_index_def in_range_def take_flow_def leave_flow_def get_quads_def get_turn_def
  lock_quads_def sort_outer.simps sort_inner.simps Let_def upt_rec

lemma run_crossing_state: "run cars [0, 0, 0, 0, 0, 0, 0, 0, 0, 0, 0, 0] (init cars) = Some crossing_state"
  by (simp add: eval_defs crossing_state_def)

lemma valid_cars_cars: "valid_cars cars"
  by (simp add: valid_cars_def eval_defs)

lemma reachable_crossing_state: "reachable cars crossing_state"
  using reachable_run[OF reach_init run_crossing_state] .

theorem quadrant_mutual_exclusion_witness:
  "valid_cars cars \<and> reachable cars crossing_state \<and> (0::nat) < length cars
   \<and> 1 \<in> held (snd crossing_state ! 0)
   \<and> quad (fst crossing_state) ! nat 1 = Some 0"
proof -
  have l: "(0::nat) < length cars" by (simp add: cars_def)
  have h: "1 \<in> held (snd crossing_state ! 0)" by (simp add: crossing_state_def held_def)
  from quadrant_mutual_exclusion[OF valid_cars_cars reachable_crossing_state l l h h]
  show ?thesis using valid_cars_cars reachable_crossing_state l h by simp
qed

lemma list_all_upt4: "list_all P [0..<4] = (\<forall>d<4. P d)"
  by (auto simp: list_all_iff)

lemma flow_inv_iff:
  "flow_inv s \<longleftrightarrow>
     (current_direction s = - 1 \<or> in_range (current_direction s))
     \<and> (\<forall>d<4. 0 \<le> flow_count s ! d \<and> flow_count s ! d \<le> INT_MAX)
     \<and> (\<forall>d<4. 0 < flow_count s ! d \<longrightarrow> current_direction s = int d)
     \<and> (current_direction s = - 1 \<longleftrightarrow> (\<forall>d<4. flow_count s ! d = 0))"
  by (simp only: flow_inv_def list_all_upt4)

lemma inv_flow_flow_inv:
  assumes inv: "inv_flow cs (sh, ls)"
    and valid: "\<And>u. u < length ls \<Longrightarrow> in_range (car_dir (cs ! u))"
  shows "flow_inv sh"
  unfolding flow_inv_iff
proof (intro conjI allI impI)
  show "current_direction sh = - 1 \<or> in_range (current_direction sh)"
  proof (cases "current_direction sh = - 1")
    case False
    then obtain u where "u < length ls" "car_dir (cs ! u) = current_direction sh"
      using inv_flowD(3)[OF inv] by blast
    then show ?thesis using valid[of u] by simp
  qed simp
next
  fix d :: nat assume "d < 4"
  then show "0 \<le> flow_count sh ! d" using inv_flowD(2)[OF inv] by simp
next
  fix d :: nat assume "d < 4"
  then show "flow_count sh ! d \<le> INT_MAX" using inv_flowD(2)[OF inv] by simp
next
  fix d :: nat assume "d < 4" "0 < flow_count sh ! d"
  then obtain u where "u < length ls" "in_flow (pc (ls ! u))" "car_dir (cs ! u) = int d"
    using inv_flowD(2)[OF inv, of d] by (auto split: if_splits)
  then show "current_direction sh = int d" using inv_flowD(1)[OF inv] by auto
next
  show "(current_direction sh = - 1) = (\<forall>d<4. flow_count sh ! d = 0)"
  proof
    assume free: "current_direction sh = - 1"
    have "\<And>u. u < length ls \<Longrightarrow> \<not> in_flow (pc (ls ! u))"
      using inv_flowD(1)[OF inv] free in_range_nat[OF valid] by fastforce
    then show "\<forall>d<4. flow_count sh ! d = 0" using inv_flowD(2)[OF inv] by auto
  next
    assume z: "\<forall>d<4. flow_count sh ! d = 0"
    show "current_direction sh = - 1"
    proof (rule ccontr)
      assume "current_direction sh \<noteq> - 1"
      then obtain u where u: "u < length ls" "in_flow (pc (ls ! u))"
        using inv_flowD(3)[OF inv] by blast
      let ?d = "nat (car_dir (cs ! u))"
      have d: "?d < 4" "int ?d = car_dir (cs ! u)" using in_range_nat[OF valid[OF u(1)]] by auto
      then have "\<exists>t<length ls. in_flow (pc (ls ! t)) \<and> car_dir (cs ! t) = int ?d"
        using u by (intro exI[of _ u]) simp
      then have "flow_count sh ! ?d = 1" using inv_flowD(2)[OF inv d(1)] by simp
      then show False using z d(1) by simp
    qed
  qed
qed

lemma flow_invI:
  assumes "current_direction s = - 1 \<or> in_range (current_direction s)"
    and "\<And>d. d < 4 \<Longrightarrow> 0 \<le> flow_count s ! d"
    and "\<And>d. d < 4 \<Longrightarrow> 0 < flow_count s ! d \<Longrightarrow> current_direction s = int d"
    and "\<And>d. current_direction s = - 1 \<Longrightarrow> d < 4 \<Longrightarrow> flow_count s ! d = 0"
    and "\<forall>d<4. flow_count s ! d = 0 \<Longrightarrow> current_direction s = - 1"
    and "\<And>d. d < 4 \<Longrightarrow> flow_count s ! d \<le> INT_MAX"
  shows "flow_inv s"
  unfolding flow_inv_iff using assms by blast

lemma flow_invD:
  assumes "flow_inv s"
  shows "current_direction s = - 1 \<or> in_range (current_direction s)"
    and "\<And>d. d < 4 \<Longrightarrow> 0 \<le> flow_count s ! d"
    and "\<And>d. d < 4 \<Longrightarrow> 0 < flow_count s ! d \<Longrightarrow> current_direction s = int d"
    and "\<And>d. current_direction s = - 1 \<Longrightarrow> d < 4 \<Longrightarrow> flow_count s ! d = 0"
    and "\<forall>d<4. flow_count s ! d = 0 \<Longrightarrow> current_direction s = - 1"
    and "\<And>d. d < 4 \<Longrightarrow> flow_count s ! d \<le> INT_MAX"
  using assms unfolding flow_inv_iff by blast+

lemma take_flow_preserves:
  assumes inv: "flow_inv f" and len: "length (flow_count f) = 4" and d: "in_range d"
    and free: "current_direction f = - 1 \<or> current_direction f = d"
    and bound: "flow_count f ! nat d < INT_MAX"
  shows "flow_inv (take_flow f d)"
proof (cases "current_direction f = - 1")
  note dn = in_range_nat[OF d]
  case True
  have cd': "current_direction (take_flow f d) = d"
    and fc': "flow_count (take_flow f d) = (flow_count f)[nat d := 1]"
    using True by (simp_all add: take_flow_def)
  have nth: "\<And>e. e < 4 \<Longrightarrow> flow_count (take_flow f d) ! e = (if e = nat d then 1 else 0)"
    using flow_invD(4)[OF inv True] len by (simp add: fc' nth_list_update)
  show ?thesis
  proof (rule flow_invI)
    show "current_direction (take_flow f d) = - 1 \<or> in_range (current_direction (take_flow f d))"
      using d cd' by simp
    show "\<And>e. e < 4 \<Longrightarrow> 0 \<le> flow_count (take_flow f d) ! e" by (simp add: nth)
    show "\<And>e. e < 4 \<Longrightarrow> 0 < flow_count (take_flow f d) ! e \<Longrightarrow>
        current_direction (take_flow f d) = int e"
      using dn by (simp add: nth cd' split: if_splits)
    show "\<And>e. current_direction (take_flow f d) = - 1 \<Longrightarrow> e < 4 \<Longrightarrow>
        flow_count (take_flow f d) ! e = 0"
      using dn by (simp add: cd')
    show "\<forall>e<4. flow_count (take_flow f d) ! e = 0 \<Longrightarrow> current_direction (take_flow f d) = - 1"
      using dn nth[of "nat d"] by auto
    show "\<And>e. e < 4 \<Longrightarrow> flow_count (take_flow f d) ! e \<le> INT_MAX" by (simp add: nth)
  qed
next
  note dn = in_range_nat[OF d]
  case False
  then have own: "current_direction f = d" using free by simp
  have pos: "0 \<le> flow_count f ! nat d" using flow_invD(2)[OF inv] dn by simp
  have w: "wrap_int (flow_count f ! nat d + 1) = flow_count f ! nat d + 1"
    using pos bound by (intro wrap_int_id) simp_all
  have cd': "current_direction (take_flow f d) = d"
    and fc': "flow_count (take_flow f d) = (flow_count f)[nat d := flow_count f ! nat d + 1]"
    using False own w by (simp_all add: take_flow_def)
  have nth: "\<And>e. e < 4 \<Longrightarrow> flow_count (take_flow f d) ! e =
      (if e = nat d then flow_count f ! nat d + 1 else flow_count f ! e)"
    using len by (simp add: fc' nth_list_update)
  show ?thesis
  proof (rule flow_invI)
    show "current_direction (take_flow f d) = - 1 \<or> in_range (current_direction (take_flow f d))"
      using d cd' by simp
    show "0 \<le> flow_count (take_flow f d) ! e" if "e < 4" for e
      using pos flow_invD(2)[OF inv that] that by (cases "e = nat d") (simp_all add: nth)
    show "current_direction (take_flow f d) = int e"
      if "e < 4" "0 < flow_count (take_flow f d) ! e" for e
      using dn flow_invD(3)[OF inv that(1)] own that by (cases "e = nat d") (simp_all add: nth cd')
    show "\<And>e. current_direction (take_flow f d) = - 1 \<Longrightarrow> e < 4 \<Longrightarrow>
        flow_count (take_flow f d) ! e = 0"
      using dn by (simp add: cd')
    show "\<forall>e<4. flow_count (take_flow f d) ! e = 0 \<Longrightarrow> current_direction (take_flow f d) = - 1"
      using dn nth[of "nat d"] pos by auto
    show "flow_count (take_flow f d) ! e \<le> INT_MAX" if "e < 4" for e
      using bound flow_invD(6)[OF inv that] that by (cases "e = nat d") (simp_all add: nth)
  qed
qed

text \<open>
  Without the bound the Join body does not keep the invariant: at \<open>INT_MAX\<close> the
  increment wraps to \<open>INT_MIN\<close>.
\<close>

lemma take_flow_at_int_max:
  "flow_count (take_flow (init_shared\<lparr>current_direction := 0,
       flow_count := [INT_MAX, 0, 0, 0]\<rparr>) 0) = [INT_MIN, 0, 0, 0]"
  by (simp add: take_flow_def init_shared_def wrap_int_def)

lemma leave_flow_preserves:
  assumes inv: "flow_inv f" and len: "length (flow_count f) = 4" and d: "in_range d"
    and own: "current_direction f = d"
  shows "flow_inv (leave_flow f d)"
proof -
  note dn = in_range_nat[OF d]
  have ne: "current_direction f \<noteq> - 1" using dn own by auto
  then obtain e where e: "e < 4" "flow_count f ! e \<noteq> 0" using flow_invD(5)[OF inv] by blast
  then have ep: "0 < flow_count f ! e" using flow_invD(2)[OF inv e(1)] by simp
  then have "int e = d" using flow_invD(3)[OF inv e(1)] own by simp
  then have pos: "0 < flow_count f ! nat d" using ep by auto
  have top: "flow_count f ! nat d \<le> INT_MAX" using flow_invD(6)[OF inv] dn by simp
  have w: "wrap_int (flow_count f ! nat d - 1) = flow_count f ! nat d - 1"
    using pos top by (intro wrap_int_id) simp_all
  have others: "\<And>k. k < 4 \<Longrightarrow> k \<noteq> nat d \<Longrightarrow> flow_count f ! k = 0"
  proof -
    fix k :: nat assume k: "k < 4" "k \<noteq> nat d"
    have "0 \<le> flow_count f ! k" using flow_invD(2)[OF inv k(1)] .
    moreover have "\<not> 0 < flow_count f ! k" using flow_invD(3)[OF inv k(1)] own k(2) by auto
    ultimately show "flow_count f ! k = 0" by simp
  qed
  let ?f = "leave_flow f d"
  have nth: "\<And>k. k < 4 \<Longrightarrow> flow_count ?f ! k = (if k = nat d then flow_count f ! nat d - 1 else 0)"
    using len others w by (simp add: leave_flow_def Let_def nth_list_update)
  have cd': "current_direction ?f = (if flow_count f ! nat d = 1 then - 1 else d)"
    using len dn own w by (simp add: leave_flow_def Let_def)
  show ?thesis
  proof (rule flow_invI)
    show "current_direction ?f = - 1 \<or> in_range (current_direction ?f)"
      using d by (simp add: cd')
    show "\<And>k. k < 4 \<Longrightarrow> 0 \<le> flow_count ?f ! k" using pos by (simp add: nth)
    show "\<And>k. k < 4 \<Longrightarrow> 0 < flow_count ?f ! k \<Longrightarrow> current_direction ?f = int k"
      using dn by (simp add: nth cd' split: if_splits)
    show "\<And>k. current_direction ?f = - 1 \<Longrightarrow> k < 4 \<Longrightarrow> flow_count ?f ! k = 0"
      using dn by (simp add: nth cd' split: if_splits)
    show "\<forall>k<4. flow_count ?f ! k = 0 \<Longrightarrow> current_direction ?f = - 1"
      using dn nth[of "nat d"] by (auto simp: cd')
    show "\<And>k. k < 4 \<Longrightarrow> flow_count ?f ! k \<le> INT_MAX" using top by (simp add: nth)
  qed
qed

text \<open>
  C7. In every reachable state of a manifest of valid cars the flow state satisfies
  \<open>flow_inv\<close>: the owner is nobody or a single direction, only the owner's count can be
  positive, every other count is 0, and nobody owns the intersection exactly when all
  counts are 0. States are taken between the operations of the threads; the
  assignments inside one critical-section body, made with \<^verbatim>\<open>turn_lock\<close> held, are one
  step. The invariant is preserved by the body of Join, run when the intersection is
  free or owned by the joining direction (which is what the wait loop guarantees) and
  the count of that direction is below \<open>INT_MAX\<close>, and by the body of Leave, run by a car
  of the owning direction.
\<close>

theorem flow_state_invariant:
  assumes "valid_cars cs" "reachable cs s"
  shows "flow_inv (fst s)
       \<and> (\<forall>f d. flow_inv f \<and> length (flow_count f) = 4 \<and> in_range d
                 \<and> (current_direction f = - 1 \<or> current_direction f = d)
                 \<and> flow_count f ! nat d < INT_MAX
               \<longrightarrow> flow_inv (take_flow f d))
       \<and> (\<forall>f d. flow_inv f \<and> length (flow_count f) = 4 \<and> in_range d
                 \<and> current_direction f = d
               \<longrightarrow> flow_inv (leave_flow f d))"
proof -
  obtain sh ls where s: "s = (sh, ls)" by (cases s)
  have inv: "inv_all cs (sh, ls)" using assms unfolding s by (rule reachable_inv_all)
  then have "inv_flow cs (sh, ls)" "length ls = length cs"
    by (simp_all add: inv_all_def inv_shape_def)
  then have "flow_inv sh"
    using valid_carsD[OF assms(1)] by (intro inv_flow_flow_inv[of cs sh ls]) simp_all
  then show ?thesis
    using take_flow_preserves leave_flow_preserves by (simp add: s)
qed

theorem flow_state_invariant_witness:
  "valid_cars cars \<and> reachable cars crossing_state
   \<and> flow_inv (fst crossing_state)
   \<and> flow_inv init_shared \<and> flow_inv (take_flow init_shared 2)
   \<and> current_direction (take_flow init_shared 2) = 2
   \<and> flow_count (take_flow init_shared 2) = [0, 0, 1, 0]
   \<and> flow_count (fst crossing_state) ! nat 0 < INT_MAX
   \<and> flow_inv (take_flow (fst crossing_state) 0)
   \<and> flow_count (take_flow (fst crossing_state) 0) = [2, 0, 0, 0]
   \<and> flow_inv (leave_flow (fst crossing_state) 0)
   \<and> current_direction (leave_flow (fst crossing_state) 0) = - 1
   \<and> flow_count (leave_flow (fst crossing_state) 0) = [0, 0, 0, 0]"
proof -
  note inst = flow_state_invariant[OF valid_cars_cars reachable_crossing_state]
  have c: "flow_inv (fst crossing_state)" using inst by (rule conjunct1)
  have j: "\<And>f d. flow_inv f \<Longrightarrow> length (flow_count f) = 4 \<Longrightarrow> in_range d \<Longrightarrow>
      current_direction f = - 1 \<or> current_direction f = d \<Longrightarrow>
      flow_count f ! nat d < INT_MAX \<Longrightarrow> flow_inv (take_flow f d)"
    using inst by blast
  have l: "\<And>f d. flow_inv f \<Longrightarrow> length (flow_count f) = 4 \<Longrightarrow> in_range d \<Longrightarrow>
      current_direction f = d \<Longrightarrow> flow_inv (leave_flow f d)"
    using inst by blast
  have i: "flow_inv init_shared"
    by (simp add: flow_inv_def init_shared_def upt_rec)
  have r: "in_range 2" "in_range 0" by (simp_all add: in_range_def)
  have a: "flow_inv (take_flow init_shared 2)"
    by (rule j[OF i _ r(1)]) (simp_all add: init_shared_def)
  have bd: "flow_count (fst crossing_state) ! nat 0 < INT_MAX"
    by (simp add: crossing_state_def)
  have a2: "flow_inv (take_flow (fst crossing_state) 0)"
    by (rule j[OF c _ r(2) _ bd]) (simp_all add: crossing_state_def)
  have b: "flow_inv (leave_flow (fst crossing_state) 0)"
    by (rule l[OF c _ r(2)]) (simp_all add: crossing_state_def)
  have e1: "current_direction (take_flow init_shared 2) = 2"
    "flow_count (take_flow init_shared 2) = [0, 0, 1, 0]"
    by (simp_all add: take_flow_def init_shared_def)
  have e2: "current_direction (leave_flow (fst crossing_state) 0) = - 1"
    "flow_count (leave_flow (fst crossing_state) 0) = [0, 0, 0, 0]"
    by (simp_all add: leave_flow_def crossing_state_def Let_def)
  have e3: "flow_count (take_flow (fst crossing_state) 0) = [2, 0, 0, 0]"
    by (simp add: take_flow_def crossing_state_def wrap_int_def)
  show ?thesis
    using valid_cars_cars reachable_crossing_state c i a bd a2 b e1 e2 e3 by (intro conjI)
qed

section \<open>Join and Leave\<close>



text \<open>
  C6. Leave, for a car of direction \<open>d = car_dir c\<close> that is counted in the flow
  (\<open>flow_count[d]\<close> is positive, and a value of a 32-bit \<^verbatim>\<open>int\<close>): the body of the
  critical section of \<^verbatim>\<open>ExitIntersection\<close> takes one from \<open>flow_count[d]\<close>; if the count
  is then 0 it frees the intersection and empties the wait set, so that every waiter
  can take \<^verbatim>\<open>turn_lock\<close> and evaluate its loop condition again as soon as the lock is
  released; otherwise it leaves the owner and the wait set as they are.
\<close>

theorem leave_behaviour:
  assumes "in_range (car_dir c)" "length (flow_count s) = 4"
    "0 < flow_count s ! nat (car_dir c)" "flow_count s ! nat (car_dir c) \<le> INT_MAX"
  shows
    "\<exists>s'. pc_step c t s q LeaveFlow = Some (s', \<lparr>pc = TurnUnlockE, qs = q\<rparr>)
        \<and> flow_count s' = (flow_count s)[nat (car_dir c) := flow_count s ! nat (car_dir c) - 1]
        \<and> (flow_count s ! nat (car_dir c) - 1 = 0 \<longrightarrow>
             current_direction s' = - 1 \<and> turn_cv s' = {}
             \<and> (\<forall>c' u q'. pc_step c' u (s'\<lparr>turn_lock := None\<rparr>) q' CondWait =
                   Some (s'\<lparr>turn_lock := Some u\<rparr>, \<lparr>pc = WhileCheck, qs = q'\<rparr>)))
        \<and> (flow_count s ! nat (car_dir c) - 1 \<noteq> 0 \<longrightarrow>
             current_direction s' = current_direction s \<and> turn_cv s' = turn_cv s)"
proof -
  have "nat (car_dir c) < length (flow_count s)"
    using assms in_range_nat[of "car_dir c"] by simp
  moreover have "wrap_int (flow_count s ! nat (car_dir c) - 1) = flow_count s ! nat (car_dir c) - 1"
    using assms(3,4) by (intro wrap_int_id) simp_all
  ultimately show ?thesis
    using assms(1) by (simp add: leave_flow_def Let_def)
qed

theorem leave_behaviour_witness:
  "in_range (car_dir (cars ! 0)) \<and> length (flow_count (owned_by_north\<lparr>turn_cv := {6}\<rparr>)) = 4
   \<and> 0 < flow_count (owned_by_north\<lparr>turn_cv := {6}\<rparr>) ! nat (car_dir (cars ! 0))
   \<and> flow_count (owned_by_north\<lparr>turn_cv := {6}\<rparr>) ! nat (car_dir (cars ! 0)) \<le> INT_MAX
   \<and> pc_step (cars ! 0) 0 (owned_by_north\<lparr>turn_cv := {6}\<rparr>) [1, 2] LeaveFlow =
       Some (init_shared, \<lparr>pc = TurnUnlockE, qs = [1, 2]\<rparr>)"
proof -
  have d0: "car_dir (cars ! 0) = 0" by (simp add: eval_defs)
  have r0: "in_range (car_dir (cars ! 0))" using d0 by (simp add: in_range_def)
  have l: "length (flow_count (owned_by_north\<lparr>turn_cv := {6}\<rparr>)) = 4"
    by (simp add: owned_by_north_def)
  have bd: "0 < flow_count (owned_by_north\<lparr>turn_cv := {6}\<rparr>) ! nat (car_dir (cars ! 0))"
    "flow_count (owned_by_north\<lparr>turn_cv := {6}\<rparr>) ! nat (car_dir (cars ! 0)) \<le> INT_MAX"
    using d0 by (simp_all add: owned_by_north_def)
  from leave_behaviour[OF r0 l bd, of 0 "[1, 2]"]
  obtain s' where s': "pc_step (cars ! 0) 0 (owned_by_north\<lparr>turn_cv := {6}\<rparr>) [1, 2] LeaveFlow =
       Some (s', \<lparr>pc = TurnUnlockE, qs = [1, 2]\<rparr>)"
    by blast
  have "pc_step (cars ! 0) 0 (owned_by_north\<lparr>turn_cv := {6}\<rparr>) [1, 2] LeaveFlow =
       Some (init_shared, \<lparr>pc = TurnUnlockE, qs = [1, 2]\<rparr>)"
    using r0 d0 by (simp add: leave_flow_def Let_def owned_by_north_def init_shared_def)
  then show ?thesis using r0 l bd s' by simp
qed

section \<open>Progress and termination\<close>





lemma held_nonempty_in_flow: "held_at p q \<noteq> [] \<Longrightarrow> in_flow p"
  by (cases p) (auto split: if_splits)















section \<open>The quadrant locks under contention\<close>

text \<open>
  In the whole program no car ever waits for a quadrant lock: the head-of-line
  semaphores and the flow state let one car at a time get from \<^verbatim>\<open>ArriveIntersection\<close>
  to the end of \<^verbatim>\<open>ExitIntersection\<close>.
\<close>

lemma reachable_no_wait:
  assumes valid: "valid_cars cs" and reach: "reachable cs s"
  shows "\<not> waits_for s t u"
proof
  assume w: "waits_for s t u"
  obtain sh ls where s: "s = (sh, ls)" by (cases s)
  have inv: "inv_all cs (sh, ls)" using valid reach unfolding s by (rule reachable_inv_all)
  then have shape: "inv_shape cs (sh, ls)" and qd: "inv_quad (sh, ls)"
    and hol: "inv_hol cs (sh, ls)" and flw: "inv_flow cs (sh, ls)"
    by (simp_all add: inv_all_def)
  from w obtain i where t: "t < length ls" and p: "pc (ls ! t) = LockQuad i"
    and i: "i < length (qs (ls ! t))" and u: "quad sh ! nat (qs (ls ! t) ! i) = Some u"
    by (auto simp: waits_for_def s)
  let ?q = "qs (ls ! t)"
  have ok: "local_ok (ls ! t)" using shape t by (simp add: inv_shape_def)
  have kr: "in_range (?q ! i)" using ok i by (simp add: local_ok_def list_all_length)
  note kn = in_range_nat[OF kr]
  have ul: "u < length ls" using inv_quadD2[OF qd] kn u by blast
  have hu: "?q ! i \<in> held (ls ! u)" using inv_quadD1[OF qd _ ul, of "nat (?q ! i)"] u kn by simp
  then have "held_at (pc (ls ! u)) (qs (ls ! u)) \<noteq> []" by (auto simp: held_def)
  then have fu: "in_flow (pc (ls ! u))" by (rule held_nonempty_in_flow)
  have ft: "in_flow (pc (ls ! t))" using p by simp
  have "car_dir (cs ! u) = car_dir (cs ! t)"
    using inv_flowD(1)[OF flw ul fu] inv_flowD(1)[OF flw t ft] by simp
  then have "u = t" using inv_holD(2)[OF hol ul t] fu ft by (simp add: in_flow_has_hol)
  then have "?q ! i \<in> set (take i ?q)" using hu p by (simp add: held_def)
  then show False using ok i by (simp add: local_ok_def nth_notin_take)
qed













section \<open>Deadlock freedom\<close>














end
